theory Spec2Isabelle
  imports Main "HOL-Library.AList" "HOL-Library.Multiset"
begin

section \<open>Python values used by kb.py\<close>

text \<open>
  The exceptions the store can raise.  \<open>assert\<close> raises \<open>AssertionError\<close>, a missing
  dictionary key \<open>KeyError\<close>, a list index out of range \<open>IndexError\<close>, and
  \<open>array('I').append\<close> of a value outside the unsigned range \<open>OverflowError\<close>.
\<close>

datatype error = AssertionError | KeyError | IndexError | OverflowError

text \<open>
  A Python \<open>dict\<close> is an association list in insertion order: \<open>map_of\<close> reads a
  key, \<open>AList.update\<close> overwrites in place or appends a new key at the end.
\<close>

type_synonym ('k, 'v) dict = "('k \<times> 'v) list"

text \<open>Largest element of an \<open>array('I')\<close> (a 4-byte C unsigned int).\<close>

definition UINT_MAX :: int where
  "UINT_MAX = 4294967295"

text \<open>\<open>xs[i]\<close> on a Python list: negative indices count from the end.\<close>

definition list_index :: "'a list \<Rightarrow> int \<Rightarrow> error + 'a" where
  "list_index xs i =
     (if 0 \<le> i \<and> i < int (length xs) then Inr (xs ! nat i)
      else if i < 0 \<and> - int (length xs) \<le> i then Inr (xs ! nat (int (length xs) + i))
      else Inl IndexError)"

text \<open>\<open>xs[lo:hi]\<close> for non-negative bounds: clamped to the length, empty when \<open>hi \<le> lo\<close>.\<close>

definition slice :: "'a list \<Rightarrow> nat \<Rightarrow> nat \<Rightarrow> 'a list" where
  "slice xs lo hi = take (hi - lo) (drop lo xs)"

text \<open>\<open>xs[a:b]\<close> for arbitrary integers: a negative bound is taken from the end.\<close>

definition slice_bound :: "nat \<Rightarrow> int \<Rightarrow> nat" where
  "slice_bound n i = (if i < 0 then nat (max (i + int n) 0) else nat (min i (int n)))"

definition py_slice :: "'a list \<Rightarrow> int \<Rightarrow> int \<Rightarrow> 'a list" where
  "py_slice xs a b = slice xs (slice_bound (length xs) a) (slice_bound (length xs) b)"

text \<open>\<open>d[k].append(v)\<close> where \<open>d[k]\<close> is an \<open>array('I')\<close> and \<open>v\<close> a Python int.\<close>

definition array_append :: "('k, nat list) dict \<Rightarrow> 'k \<Rightarrow> int \<Rightarrow> error + ('k, nat list) dict" where
  "array_append d k v =
     (case map_of d k of
        None \<Rightarrow> Inl KeyError
      | Some xs \<Rightarrow>
          if 0 \<le> v \<and> v \<le> UINT_MAX then Inr (AList.update k (xs @ [nat v]) d)
          else Inl OverflowError)"

section \<open>class KB\<close>

text \<open>
  The fields of \<open>KB\<close> (Python mangles \<open>self.__contexts\<close> to \<open>_KB__contexts\<close>).
  The lock is not part of the sequential model.
\<close>

record kb =
  kb_contexts :: "(string, nat list) dict"
  kb_starts :: "(string, nat list) dict"
  kb_ends :: "(string, nat list) dict"
  kb_answers :: "(string, nat list) dict"
  kb_context_offsets :: "(string, nat list) dict"
  kb_span_offsets :: "(string, nat list) dict"
  kb_vocab :: "string list"
  kb_answer_vocab :: "string list"
  kb_count :: "nat list"
  kb_answer_count :: "nat list"
  kb_ids :: "(string, nat) dict"
  kb_answer_ids :: "(string, nat) dict"
  kb_max_context_length :: nat
  kb_max_span_length :: nat
  kb_ordered :: bool

text \<open>\<open>KB.__init__\<close>\<close>

definition kb_init :: kb where
  "kb_init = \<lparr>kb_contexts = [], kb_starts = [], kb_ends = [], kb_answers = [],
     kb_context_offsets = [], kb_span_offsets = [], kb_vocab = [], kb_answer_vocab = [],
     kb_count = [], kb_answer_count = [], kb_ids = [], kb_answer_ids = [],
     kb_max_context_length = 0, kb_max_span_length = 0, kb_ordered = False\<rparr>"

text \<open>\<open>KB.__add_to_vocab\<close>: the id of \<open>key\<close>, interned if new, its count incremented.\<close>

definition add_to_vocab :: "string \<Rightarrow> kb \<Rightarrow> (error + nat) \<times> kb" where
  "add_to_vocab key s =
     (let s1 = (if map_of (kb_ids s) key = None
                then s\<lparr>kb_ids := AList.update key (length (kb_vocab s)) (kb_ids s),
                        kb_vocab := kb_vocab s @ [key],
                        kb_count := kb_count s @ [0]\<rparr>
                else s)
      in case map_of (kb_ids s1) key of
           None \<Rightarrow> (Inl KeyError, s1)
         | Some i \<Rightarrow>
             if i < length (kb_count s1)
             then (Inr i, s1\<lparr>kb_count := (kb_count s1)[i := kb_count s1 ! i + 1]\<rparr>)
             else (Inl IndexError, s1))"

text \<open>\<open>KB.__add_to_answer_vocab\<close>\<close>

definition add_to_answer_vocab :: "string \<Rightarrow> kb \<Rightarrow> (error + nat) \<times> kb" where
  "add_to_answer_vocab key s =
     (let s1 = (if map_of (kb_answer_ids s) key = None
                then s\<lparr>kb_answer_ids := AList.update key (length (kb_answer_vocab s)) (kb_answer_ids s),
                        kb_answer_vocab := kb_answer_vocab s @ [key],
                        kb_answer_count := kb_answer_count s @ [0]\<rparr>
                else s)
      in case map_of (kb_answer_ids s1) key of
           None \<Rightarrow> (Inl KeyError, s1)
         | Some i \<Rightarrow>
             if i < length (kb_answer_count s1)
             then (Inr i, s1\<lparr>kb_answer_count := (kb_answer_count s1)[i := kb_answer_count s1 ! i + 1]\<rparr>)
             else (Inl IndexError, s1))"

text \<open>\<open>KB.num_contexts\<close>\<close>

definition num_contexts :: "string \<Rightarrow> kb \<Rightarrow> nat" where
  "num_contexts dataset s =
     length (case map_of (kb_context_offsets s) dataset of None \<Rightarrow> [] | Some offs \<Rightarrow> offs)"

subsection \<open>KB.add\<close>

text \<open>Lines 45 to 50: the six empty containers of a partition seen for the first time.\<close>

definition new_partition :: "string \<Rightarrow> kb \<Rightarrow> kb" where
  "new_partition dataset s =
     s\<lparr>kb_contexts := AList.update dataset [] (kb_contexts s),
       kb_starts := AList.update dataset [] (kb_starts s),
       kb_ends := AList.update dataset [] (kb_ends s),
       kb_answers := AList.update dataset [] (kb_answers s),
       kb_context_offsets := AList.update dataset [] (kb_context_offsets s),
       kb_span_offsets := AList.update dataset [] (kb_span_offsets s)\<rparr>"

text \<open>Lines 52 and 53: the two offsets of the new context.\<close>

definition add_offsets :: "string \<Rightarrow> kb \<Rightarrow> error option \<times> kb" where
  "add_offsets dataset s =
     (case (map_of (kb_context_offsets s) dataset, map_of (kb_contexts s) dataset) of
        (Some offs, Some c) \<Rightarrow>
          (let s1 = s\<lparr>kb_context_offsets :=
                        AList.update dataset (offs @ [length c]) (kb_context_offsets s)\<rparr>
           in case (map_of (kb_span_offsets s1) dataset, map_of (kb_starts s1) dataset) of
                (Some soffs, Some st) \<Rightarrow>
                  (None, s1\<lparr>kb_span_offsets :=
                              AList.update dataset (soffs @ [length st]) (kb_span_offsets s1)\<rparr>)
              | _ \<Rightarrow> (Some KeyError, s1))
      | _ \<Rightarrow> (Some KeyError, s))"

text \<open>
  Line 54: \<open>extend\<close> draws the generator one token at a time, so each token is
  interned and its id appended before the next token is looked at.
\<close>

fun extend_contexts :: "string \<Rightarrow> string list \<Rightarrow> kb \<Rightarrow> error option \<times> kb" where
  "extend_contexts dataset [] s = (None, s)"
| "extend_contexts dataset (w # ws) s =
     (case add_to_vocab w s of
        (Inl e, s1) \<Rightarrow> (Some e, s1)
      | (Inr i, s1) \<Rightarrow>
          (case array_append (kb_contexts s1) dataset (int i) of
             Inl e \<Rightarrow> (Some e, s1)
           | Inr c \<Rightarrow> extend_contexts dataset ws (s1\<lparr>kb_contexts := c\<rparr>)))"

text \<open>Lines 55 to 57.\<close>

fun append_spans :: "string \<Rightarrow> (int \<times> int) list \<Rightarrow> kb \<Rightarrow> error option \<times> kb" where
  "append_spans dataset [] s = (None, s)"
| "append_spans dataset (span # spans) s =
     (case array_append (kb_starts s) dataset (fst span) of
        Inl e \<Rightarrow> (Some e, s)
      | Inr st \<Rightarrow>
          (let s1 = s\<lparr>kb_starts := st\<rparr>
           in case array_append (kb_ends s1) dataset (snd span) of
                Inl e \<Rightarrow> (Some e, s1)
              | Inr en \<Rightarrow> append_spans dataset spans (s1\<lparr>kb_ends := en\<rparr>)))"

text \<open>Lines 60 to 63.\<close>

fun append_answers :: "string \<Rightarrow> string list \<Rightarrow> kb \<Rightarrow> error option \<times> kb" where
  "append_answers dataset [] s = (None, s)"
| "append_answers dataset (answer # rest) s =
     (case map_of (kb_answers s) dataset of
        None \<Rightarrow> (Some KeyError, s)
      | Some _ \<Rightarrow>
          (case add_to_answer_vocab answer s of
             (Inl e, s1) \<Rightarrow> (Some e, s1)
           | (Inr i, s1) \<Rightarrow>
               (case array_append (kb_answers s1) dataset (int i) of
                  Inl e \<Rightarrow> (Some e, s1)
                | Inr an \<Rightarrow>
                    (case add_to_vocab answer (s1\<lparr>kb_answers := an\<rparr>) of
                       (Inl e, s2) \<Rightarrow> (Some e, s2)
                     | (Inr _, s2) \<Rightarrow> append_answers dataset rest s2))))"

text \<open>
  Lines 58 to 63.  \<open>self.__answers\<close> is the dictionary of all partitions: it is
  true as soon as one partition exists.
\<close>

definition add_answers :: "string \<Rightarrow> (int \<times> int) list \<Rightarrow> string list option \<Rightarrow> kb \<Rightarrow> error option \<times> kb" where
  "add_answers dataset spans answers s =
     (case answers of
        None \<Rightarrow> (None, s)
      | Some as \<Rightarrow>
          if kb_answers s \<noteq> [] then
            (if length as = length spans then append_answers dataset as s
             else (Some AssertionError, s))
          else (None, s))"

text \<open>
  \<open>KB.add\<close>.  The result is the raised exception or the returned index, together with
  the store as the call leaves it: what was written before an exception stays written.
\<close>

definition add :: "string list \<Rightarrow> (int \<times> int) list \<Rightarrow> string list option \<Rightarrow> string \<Rightarrow> kb \<Rightarrow> (error + int) \<times> kb" where
  "add context spans answers dataset s =
     (let s0 = s\<lparr>kb_ordered := False\<rparr> in
      if \<not> length spans > 0 then (Inl AssertionError, s0)
      else
        let s1 = (if map_of (kb_contexts s0) dataset = None then new_partition dataset s0 else s0) in
        case add_offsets dataset s1 of
          (Some e, s2) \<Rightarrow> (Inl e, s2)
        | (None, s2) \<Rightarrow>
        case extend_contexts dataset context s2 of
          (Some e, s3) \<Rightarrow> (Inl e, s3)
        | (None, s3) \<Rightarrow>
        case append_spans dataset spans s3 of
          (Some e, s4) \<Rightarrow> (Inl e, s4)
        | (None, s4) \<Rightarrow>
        case add_answers dataset spans answers s4 of
          (Some e, s5) \<Rightarrow> (Inl e, s5)
        | (None, s5) \<Rightarrow>
        let s6 = s5\<lparr>kb_max_context_length := max (kb_max_context_length s5) (length context),
                    kb_max_span_length := max (kb_max_span_length s5) (length spans)\<rparr>
        in (Inr (int (num_contexts dataset s6) - 1), s6))"

subsection \<open>Readers\<close>

text \<open>\<open>KB.context\<close> (\<open>context\<close> is a reserved word here).\<close>

definition context_at :: "int \<Rightarrow> string \<Rightarrow> kb \<Rightarrow> error + nat list" where
  "context_at i dataset s =
     (case map_of (kb_context_offsets s) dataset of
        None \<Rightarrow> Inl KeyError
      | Some offs \<Rightarrow>
     case list_index offs i of
        Inl e \<Rightarrow> Inl e
      | Inr offset \<Rightarrow>
     case (if i + 1 < int (length offs) then list_index offs (i + 1)
           else (case map_of (kb_contexts s) dataset of
                   None \<Rightarrow> Inl KeyError | Some c \<Rightarrow> Inr (length c))) of
        Inl e \<Rightarrow> Inl e
      | Inr stop \<Rightarrow>
     case map_of (kb_contexts s) dataset of
        None \<Rightarrow> Inl KeyError
      | Some c \<Rightarrow> Inr (slice c offset stop))"

text \<open>\<open>KB.spans\<close>\<close>

definition spans :: "int \<Rightarrow> string \<Rightarrow> kb \<Rightarrow> error + (nat list \<times> nat list)" where
  "spans i dataset s =
     (case map_of (kb_span_offsets s) dataset of
        None \<Rightarrow> Inl KeyError
      | Some offs \<Rightarrow>
     case list_index offs i of
        Inl e \<Rightarrow> Inl e
      | Inr offset \<Rightarrow>
     case (if i + 1 < int (length offs) then list_index offs (i + 1)
           else (case map_of (kb_starts s) dataset of
                   None \<Rightarrow> Inl KeyError | Some st \<Rightarrow> Inr (length st))) of
        Inl e \<Rightarrow> Inl e
      | Inr stop \<Rightarrow>
     case map_of (kb_starts s) dataset of
        None \<Rightarrow> Inl KeyError
      | Some st \<Rightarrow>
     case map_of (kb_ends s) dataset of
        None \<Rightarrow> Inl KeyError
      | Some en \<Rightarrow> Inr (slice st offset stop, slice en offset stop))"

text \<open>
  \<open>KB.answers\<close>.  The fall-back branch calls \<open>self.context(dataset, i)\<close> with the
  arguments exchanged, so it looks the integer \<open>i\<close> up among the partition names
  and raises \<open>KeyError\<close> as soon as there is one start position to translate.
\<close>

definition answers :: "int \<Rightarrow> string \<Rightarrow> kb \<Rightarrow> error + nat list" where
  "answers i dataset s =
     (case map_of (kb_span_offsets s) dataset of
        None \<Rightarrow> Inl KeyError
      | Some offs \<Rightarrow>
     case list_index offs i of
        Inl e \<Rightarrow> Inl e
      | Inr offset \<Rightarrow>
     case (if i + 1 < int (length offs) then list_index offs (i + 1)
           else (case map_of (kb_answers s) dataset of
                   None \<Rightarrow> Inl KeyError | Some an \<Rightarrow> Inr (length an))) of
        Inl e \<Rightarrow> Inl e
      | Inr stop \<Rightarrow>
     if kb_answers s \<noteq> [] then
       (case map_of (kb_answers s) dataset of
          None \<Rightarrow> Inl KeyError
        | Some an \<Rightarrow> Inr (slice an offset stop))
     else
       (case map_of (kb_starts s) dataset of
          None \<Rightarrow> Inl KeyError
        | Some st \<Rightarrow> if slice st (offset * 2) (stop * 2) = [] then Inr [] else Inl KeyError))"

subsection \<open>Sequences of calls\<close>

text \<open>The arguments of one call of \<open>add\<close>.\<close>

record add_call =
  call_context :: "string list"
  call_spans :: "(int \<times> int) list"
  call_answers :: "string list option"
  call_dataset :: string

text \<open>
  A program that calls \<open>add\<close> once per element of the list, one call after the other:
  what each call returned or raised, with the store as that call left it.
\<close>

fun add_trace :: "kb \<Rightarrow> add_call list \<Rightarrow> ((error + int) \<times> kb) list" where
  "add_trace s [] = []"
| "add_trace s (c # cs) =
     (let r = add (call_context c) (call_spans c) (call_answers c) (call_dataset c) s
      in r # add_trace (snd r) cs)"

text \<open>The store after the last call.\<close>

definition final_store :: "kb \<Rightarrow> add_call list \<Rightarrow> kb" where
  "final_store s calls = last (s # map snd (add_trace s calls))"

subsection \<open>KB.order_vocab_by_freq\<close>

text \<open>
  \<open>numpy.argsort\<close> is library code, called with its default kind, which is not a
  stable sort.  What the library promises is the contract below: each index once, the
  counts read in that order ascending.  The order it gives to equal counts is its own
  affair, so the functions that call it take it as the parameter \<open>argsort\<close>.
\<close>

definition is_argsort :: "(nat list \<Rightarrow> nat list) \<Rightarrow> bool" where
  "is_argsort argsort \<longleftrightarrow>
     (\<forall>cs. distinct (argsort cs) \<and> set (argsort cs) = {0..<length cs}
           \<and> sorted (map (\<lambda>i. cs ! i) (argsort cs)))"

text \<open>
  Two sorts that keep the contract: one leaves equal counts in index order (an insertion
  sort), the other returns them in descending index order.
\<close>

definition argsort_stable :: "nat list \<Rightarrow> nat list" where
  "argsort_stable cs = sort_key (\<lambda>i. cs ! i) [0..<length cs]"

definition argsort_ties_reversed :: "nat list \<Rightarrow> nat list" where
  "argsort_ties_reversed cs = rev (sort_key (\<lambda>i. - int (cs ! i)) [0..<length cs])"

text \<open>Line 174: \<open>np.argsort(self.__count)[::-1]\<close>, the local variable \<open>sorted\<close>.\<close>

definition freq_order :: "(nat list \<Rightarrow> nat list) \<Rightarrow> kb \<Rightarrow> nat list" where
  "freq_order argsort s = rev (argsort (kb_count s))"

text \<open>
  Lines 178 to 181, from position \<open>i\<close> of the enumeration on.  The three lists are the
  locals \<open>mapping\<close>, \<open>new_vocab\<close> and \<open>new_counts\<close>; an index past the end of
  \<open>mapping\<close>, of the vocabulary or of the counts raises before the store is written.
\<close>

fun build_mapping :: "kb \<Rightarrow> nat \<Rightarrow> nat list \<Rightarrow> nat list \<times> string list \<times> nat list
    \<Rightarrow> error + (nat list \<times> string list \<times> nat list)" where
  "build_mapping s i [] acc = Inr acc"
| "build_mapping s i (k # ks) (mapping, new_vocab, new_counts) =
     (if k < length mapping \<and> k < length (kb_vocab s) \<and> k < length (kb_count s)
      then build_mapping s (i + 1) ks
             (mapping[k := i], new_vocab @ [kb_vocab s ! k], new_counts @ [kb_count s ! k])
      else Inl IndexError)"

text \<open>
  Lines 186 and 187: every id of the symbol table is sent through \<open>mapping\<close>, in
  dictionary order; at an id past its end the loop stops with the entries before it
  already rewritten.
\<close>

fun remap_ids :: "nat list \<Rightarrow> (string, nat) dict \<Rightarrow> error option \<times> (string, nat) dict" where
  "remap_ids mapping [] = (None, [])"
| "remap_ids mapping ((w, i) # rest) =
     (if i < length mapping
      then (case remap_ids mapping rest of (e, rest') \<Rightarrow> (e, (w, mapping ! i) # rest'))
      else (Some IndexError, (w, i) # rest))"

text \<open>
  Lines 190 and 191: one packed array, rewritten in place from the front.  The new id is
  stored into an \<open>array('I')\<close>, which refuses a value above its element type.
\<close>

fun remap_array :: "nat list \<Rightarrow> nat list \<Rightarrow> error option \<times> nat list" where
  "remap_array mapping [] = (None, [])"
| "remap_array mapping (x # xs) =
     (if x < length mapping
      then (if int (mapping ! x) \<le> UINT_MAX
            then (case remap_array mapping xs of (e, ys) \<Rightarrow> (e, mapping ! x # ys))
            else (Some OverflowError, x # xs))
      else (Some IndexError, x # xs))"

text \<open>Lines 189 to 191: the packed arrays of all partitions, in dictionary order.\<close>

fun remap_contexts :: "nat list \<Rightarrow> (string, nat list) dict \<Rightarrow> error option \<times> (string, nat list) dict" where
  "remap_contexts mapping [] = (None, [])"
| "remap_contexts mapping ((d, ctxt) # rest) =
     (case remap_array mapping ctxt of
        (Some e, ctxt') \<Rightarrow> (Some e, (d, ctxt') # rest)
      | (None, ctxt') \<Rightarrow>
          (case remap_contexts mapping rest of (e, rest') \<Rightarrow> (e, (d, ctxt') # rest')))"

text \<open>
  \<open>KB.order_vocab_by_freq\<close>, with the library's \<open>argsort\<close>: the raised exception,
  if any, and the store afterwards.
\<close>

definition order_vocab_by_freq :: "(nat list \<Rightarrow> nat list) \<Rightarrow> kb \<Rightarrow> error option \<times> kb" where
  "order_vocab_by_freq argsort s =
     (if \<not> kb_ordered s then
        (case build_mapping s 0 (freq_order argsort s) (replicate (length (kb_vocab s)) 0, [], []) of
           Inl e \<Rightarrow> (Some e, s)
         | Inr (mapping, new_vocab, new_counts) \<Rightarrow>
             (let s1 = s\<lparr>kb_vocab := new_vocab, kb_count := new_counts\<rparr> in
              case remap_ids mapping (kb_ids s1) of
                (Some e, ids) \<Rightarrow> (Some e, s1\<lparr>kb_ids := ids\<rparr>)
              | (None, ids) \<Rightarrow>
                  (let s2 = s1\<lparr>kb_ids := ids\<rparr> in
                   case remap_contexts mapping (kb_contexts s2) of
                     (Some e, cs) \<Rightarrow> (Some e, s2\<lparr>kb_contexts := cs\<rparr>)
                   | (None, cs) \<Rightarrow> (None, s2\<lparr>kb_contexts := cs, kb_ordered := True\<rparr>))))
      else (None, s))"

text \<open>
  The stores a program can build: a fresh store, changed by any number of calls of
  \<open>add\<close> (raising or not) and of \<open>order_vocab_by_freq\<close>.
\<close>

inductive reachable :: "(nat list \<Rightarrow> nat list) \<Rightarrow> kb \<Rightarrow> bool" for argsort where
  reachable_init: "reachable argsort kb_init"
| reachable_add: "reachable argsort s \<Longrightarrow> reachable argsort (snd (add ctx sp ans ds s))"
| reachable_order: "reachable argsort s \<Longrightarrow> reachable argsort (snd (order_vocab_by_freq argsort s))"

section \<open>class FactKB\<close>

record factkb =
  fkb_kb :: kb
  fkb_entity_vocab :: "string list"
  fkb_entity_ids :: "(string, nat) dict"
  fkb_entity_ctxt :: "(string, int list list) dict"
  fkb_entity_ctxt_span :: "(string, (int \<times> int) list list) dict"
  fkb_facts :: "(string, int list) dict"

text \<open>\<open>FactKB.__init__\<close>\<close>

definition factkb_init :: "kb option \<Rightarrow> factkb" where
  "factkb_init k =
     \<lparr>fkb_kb = (case k of None \<Rightarrow> kb_init | Some s \<Rightarrow> s),
      fkb_entity_vocab = [], fkb_entity_ids = [], fkb_entity_ctxt = [],
      fkb_entity_ctxt_span = [], fkb_facts = []\<rparr>"

text \<open>
  A fact is passed as a list of tokens or as text, which \<open>str.split()\<close> cuts at runs
  of white space.  A character stands for a code point below 256; the white space of
  Python 3 among them is listed in \<open>is_space\<close>.
\<close>

datatype fact_arg = Tokens "string list" | Text string

definition is_space :: "char \<Rightarrow> bool" where
  "is_space c = (c \<in> set [CHR '' '', CHR 0x09, CHR 0x0A, CHR 0x0B, CHR 0x0C, CHR 0x0D,
                           CHR 0x1C, CHR 0x1D, CHR 0x1E, CHR 0x1F, CHR 0x85, CHR 0xA0])"

fun split_from :: "string \<Rightarrow> string \<Rightarrow> string list" where
  "split_from [] cur = (if cur = [] then [] else [cur])"
| "split_from (c # cs) cur =
     (if is_space c then (if cur = [] then split_from cs [] else cur # split_from cs [])
      else split_from cs (cur @ [c]))"

definition str_split :: "string \<Rightarrow> string list" where
  "str_split t = split_from t []"

text \<open>\<open>sep.join(ws)\<close>\<close>

fun str_join :: "string \<Rightarrow> string list \<Rightarrow> string" where
  "str_join sep [] = []"
| "str_join sep [w] = w"
| "str_join sep (w # v # ws) = w @ sep @ str_join sep (v # ws)"

text \<open>\<open>d[k].append(v)\<close> for a dictionary of Python lists.\<close>

definition dict_append :: "('k, 'v list) dict \<Rightarrow> 'k \<Rightarrow> 'v \<Rightarrow> error + ('k, 'v list) dict" where
  "dict_append d k v =
     (case map_of d k of
        None \<Rightarrow> Inl KeyError
      | Some xs \<Rightarrow> Inr (AList.update k (xs @ [v]) d))"

text \<open>\<open>d[k][j].append(v)\<close> for a dictionary of lists of lists and an id \<open>j \<ge> 0\<close>.\<close>

definition nested_append :: "('k, 'v list list) dict \<Rightarrow> 'k \<Rightarrow> nat \<Rightarrow> 'v \<Rightarrow> error + ('k, 'v list list) dict" where
  "nested_append d k j v =
     (case map_of d k of
        None \<Rightarrow> Inl KeyError
      | Some xss \<Rightarrow>
          if j < length xss then Inr (AList.update k (xss[j := xss ! j @ [v]]) d)
          else Inl IndexError)"

text \<open>Line 213: the default names, the tokens of each span joined by an underscore.\<close>

definition span_names :: "string list \<Rightarrow> (int \<times> int) list \<Rightarrow> string list" where
  "span_names ws entity_spans =
     map (\<lambda>span. str_join ''_'' (py_slice ws (fst span) (snd span))) entity_spans"

text \<open>Lines 225 to 227: one more empty mention list in every partition of the index.\<close>

fun append_empty :: "string list \<Rightarrow> factkb \<Rightarrow> error option \<times> factkb" where
  "append_empty [] f = (None, f)"
| "append_empty (ds # dss) f =
     (case dict_append (fkb_entity_ctxt f) ds [] of
        Inl e \<Rightarrow> (Some e, f)
      | Inr ec \<Rightarrow>
          (let f1 = f\<lparr>fkb_entity_ctxt := ec\<rparr>
           in case dict_append (fkb_entity_ctxt_span f1) ds [] of
                Inl e \<Rightarrow> (Some e, f1)
              | Inr es \<Rightarrow> append_empty dss (f1\<lparr>fkb_entity_ctxt_span := es\<rparr>)))"

text \<open>Lines 223 to 227: an entity seen for the first time.\<close>

definition new_entity :: "string \<Rightarrow> factkb \<Rightarrow> error option \<times> factkb" where
  "new_entity e f =
     (let f1 = f\<lparr>fkb_entity_ids := AList.update e (length (fkb_entity_vocab f)) (fkb_entity_ids f),
                 fkb_entity_vocab := fkb_entity_vocab f @ [e]\<rparr>
      in append_empty (map fst (fkb_entity_ctxt f1)) f1)"

text \<open>Lines 221 to 231: the loop over the entities and their spans.\<close>

fun index_entities :: "string \<Rightarrow> int \<Rightarrow> (string \<times> int \<times> int) list \<Rightarrow> factkb \<Rightarrow> error option \<times> factkb" where
  "index_entities dataset fact_id [] f = (None, f)"
| "index_entities dataset fact_id ((e, span) # rest) f =
     (case (if map_of (fkb_entity_ids f) e = None then new_entity e f else (None, f)) of
        (Some err, f1) \<Rightarrow> (Some err, f1)
      | (None, f1) \<Rightarrow>
     case map_of (fkb_entity_ids f1) e of
        None \<Rightarrow> (Some KeyError, f1)
      | Some j \<Rightarrow>
     case nested_append (fkb_entity_ctxt f1) dataset j fact_id of
        Inl err \<Rightarrow> (Some err, f1)
      | Inr ec \<Rightarrow>
     case nested_append (fkb_entity_ctxt_span (f1\<lparr>fkb_entity_ctxt := ec\<rparr>)) dataset j span of
        Inl err \<Rightarrow> (Some err, f1\<lparr>fkb_entity_ctxt := ec\<rparr>)
      | Inr es \<Rightarrow>
     case dict_append (fkb_facts f1) dataset fact_id of
        Inl err \<Rightarrow> (Some err, f1\<lparr>fkb_entity_ctxt := ec, fkb_entity_ctxt_span := es\<rparr>)
      | Inr fs \<Rightarrow>
          index_entities dataset fact_id rest
            (f1\<lparr>fkb_entity_ctxt := ec, fkb_entity_ctxt_span := es, fkb_facts := fs\<rparr>))"

text \<open>Lines 216 to 219: the index of a partition seen for the first time.\<close>

definition new_fact_partition :: "string \<Rightarrow> factkb \<Rightarrow> factkb" where
  "new_fact_partition dataset f =
     f\<lparr>fkb_facts := AList.update dataset [] (fkb_facts f),
       fkb_entity_ctxt := AList.update dataset (map (\<lambda>_. []) (fkb_entity_ids f)) (fkb_entity_ctxt f),
       fkb_entity_ctxt_span :=
         AList.update dataset (map (\<lambda>_. []) (fkb_entity_ids f)) (fkb_entity_ctxt_span f)\<rparr>"

text \<open>
  \<open>FactKB.add\<close>, the \<open>add_fact\<close> of the specification.  The inner store is an object
  the index refers to: what \<open>KB.add\<close> wrote stays written when it raises.
\<close>

definition add_fact :: "fact_arg \<Rightarrow> (int \<times> int) list \<Rightarrow> string list option \<Rightarrow> string \<Rightarrow> factkb
    \<Rightarrow> (error + int) \<times> factkb" where
  "add_fact fact_in entity_spans entities dataset f =
     (let ws = (case fact_in of Tokens l \<Rightarrow> l | Text t \<Rightarrow> str_split t) in
      if \<not> (case entities of None \<Rightarrow> True | Some es \<Rightarrow> length es = length entity_spans)
      then (Inl AssertionError, f)
      else
        let names = (case entities of None \<Rightarrow> span_names ws entity_spans | Some es \<Rightarrow> es) in
        case add ws entity_spans (Some names) dataset (fkb_kb f) of
          (Inl e, k) \<Rightarrow> (Inl e, f\<lparr>fkb_kb := k\<rparr>)
        | (Inr fact_id, k) \<Rightarrow>
            (let f1 = f\<lparr>fkb_kb := k\<rparr>;
                 f2 = (if map_of (fkb_facts f1) dataset = None then new_fact_partition dataset f1
                       else f1)
             in case index_entities dataset fact_id (zip names entity_spans) f2 of
                  (Some e, f3) \<Rightarrow> (Inl e, f3)
                | (None, f3) \<Rightarrow> (Inr fact_id, f3)))"

text \<open>\<open>FactKB.facts_about\<close>: the entity is given by name or by id.\<close>

datatype entity_arg = Name string | Id int

definition facts_about :: "entity_arg \<Rightarrow> string \<Rightarrow> factkb \<Rightarrow> error + int list" where
  "facts_about entity dataset f =
     (case (case entity of Name n \<Rightarrow> map_option int (map_of (fkb_entity_ids f) n) | Id j \<Rightarrow> Some j) of
        None \<Rightarrow> Inr []
      | Some j \<Rightarrow>
          (case map_of (fkb_entity_ctxt f) dataset of
             None \<Rightarrow> Inl KeyError
           | Some ec \<Rightarrow> list_index ec j))"

text \<open>\<open>FactKB.fact_entities\<close>\<close>

definition fact_entities :: "int \<Rightarrow> string \<Rightarrow> factkb \<Rightarrow> error + (int list \<times> (int \<times> int) list)" where
  "fact_entities fact_id dataset f =
     (case map_of (fkb_entity_ctxt f) dataset of
        None \<Rightarrow> Inl KeyError
      | Some ec \<Rightarrow>
     case list_index ec fact_id of
        Inl e \<Rightarrow> Inl e
      | Inr facts \<Rightarrow>
     case map_of (fkb_entity_ctxt_span f) dataset of
        None \<Rightarrow> Inl KeyError
      | Some es \<Rightarrow>
     case list_index es fact_id of
        Inl e \<Rightarrow> Inl e
      | Inr sps \<Rightarrow> Inr (facts, sps))"

text \<open>
  The indexes a program can build: a fresh one, on a new store or on a given one, changed
  by any number of calls of \<open>add_fact\<close> (raising or not).
\<close>

inductive fact_reachable :: "factkb \<Rightarrow> bool" where
  fact_reachable_init: "fact_reachable (factkb_init k)"
| fact_reachable_add: "fact_reachable f \<Longrightarrow> fact_reachable (snd (add_fact fa sp en ds f))"

section \<open>Invariants and decoding\<close>

text \<open>
  What every store built by \<open>add\<close> and \<open>order_vocab_by_freq\<close> satisfies: one count
  per symbol, and every id in the symbol table and in the packed arrays below the size
  of the vocabulary.
\<close>

definition vocab_ok :: "kb \<Rightarrow> bool" where
  "vocab_ok s \<longleftrightarrow>
     length (kb_count s) = length (kb_vocab s)
     \<and> (\<forall>w i. (w, i) \<in> set (kb_ids s) \<longrightarrow> i < length (kb_vocab s))
     \<and> (\<forall>d c x. (d, c) \<in> set (kb_contexts s) \<longrightarrow> x \<in> set c \<longrightarrow> x < length (kb_vocab s))"

text \<open>With the flag \<open>ordered\<close> set, the counts are in non-increasing order.\<close>

definition vocab_inv :: "kb \<Rightarrow> bool" where
  "vocab_inv s \<longleftrightarrow> vocab_ok s \<and> (kb_ordered s \<longrightarrow> sorted_wrt (\<ge>) (kb_count s))"

text \<open>
  What a reader does with a context: \<open>[kb.vocab[i] for i in ids]\<close>, which raises
  \<open>IndexError\<close> at an id past the end of the vocabulary.
\<close>

fun decode :: "string list \<Rightarrow> nat list \<Rightarrow> error + string list" where
  "decode v [] = Inr []"
| "decode v (x # xs) =
     (if x < length v
      then (case decode v xs of Inl e \<Rightarrow> Inl e | Inr ws \<Rightarrow> Inr (v ! x # ws))
      else Inl IndexError)"

text \<open>Every id of the symbol table names its own symbol.\<close>

definition ids_ok :: "kb \<Rightarrow> bool" where
  "ids_ok s \<longleftrightarrow> (\<forall>w i. (w, i) \<in> set (kb_ids s) \<longrightarrow> kb_vocab s ! i = w)"

text \<open>The vocabulary of \<open>s'\<close> starts with the vocabulary of \<open>s\<close>.\<close>

definition vocab_ext :: "kb \<Rightarrow> kb \<Rightarrow> bool" where
  "vocab_ext s s' \<longleftrightarrow> length (kb_vocab s) \<le> length (kb_vocab s')
     \<and> (\<forall>x < length (kb_vocab s). kb_vocab s' ! x = kb_vocab s ! x)"

text \<open>The five containers that hold the contexts and the spans of all partitions.\<close>

definition layout :: "kb \<Rightarrow> (string, nat list) dict \<times> (string, nat list) dict
    \<times> (string, nat list) dict \<times> (string, nat list) dict \<times> (string, nat list) dict" where
  "layout s = (kb_contexts s, kb_context_offsets s, kb_starts s, kb_ends s, kb_span_offsets s)"

text \<open>
  Element \<open>i\<close> of a packed array: from its offset to the next offset, or to the end
  of the array for the last one.
\<close>

definition seg :: "nat list \<Rightarrow> 'a list \<Rightarrow> nat \<Rightarrow> 'a list" where
  "seg offs arr i = slice arr (offs ! i) (if Suc i < length offs then offs ! Suc i else length arr)"

text \<open>The store on which lines 52 to 65 of \<open>add\<close> work.\<close>

definition add_base :: "string \<Rightarrow> kb \<Rightarrow> kb" where
  "add_base ds s = (if map_of (kb_contexts s) ds = None then new_partition ds s else s)"

text \<open>
  A partition is either absent from all five containers or present in all of them, with
  every offset inside its array, as many span ends as span starts, and one span offset
  per context.
\<close>

definition partition_ok :: "kb \<Rightarrow> string \<Rightarrow> bool" where
  "partition_ok s ds \<longleftrightarrow>
     (map_of (kb_contexts s) ds = None \<longrightarrow>
        map_of (kb_context_offsets s) ds = None \<and> map_of (kb_starts s) ds = None
        \<and> map_of (kb_ends s) ds = None \<and> map_of (kb_span_offsets s) ds = None)
     \<and> (\<forall>c. map_of (kb_contexts s) ds = Some c \<longrightarrow>
          (\<exists>offs st en soffs.
             map_of (kb_context_offsets s) ds = Some offs \<and> map_of (kb_starts s) ds = Some st
             \<and> map_of (kb_ends s) ds = Some en \<and> map_of (kb_span_offsets s) ds = Some soffs
             \<and> (\<forall>off \<in> set offs. off \<le> length c) \<and> length en = length st
             \<and> (\<forall>off \<in> set soffs. off \<le> length st) \<and> length soffs = length offs))"

definition store_inv :: "kb \<Rightarrow> bool" where
  "store_inv s \<longleftrightarrow> vocab_ok s \<and> ids_ok s \<and> (\<forall>ds. partition_ok s ds)"

text \<open>
  The partition holds exactly the given contexts and spans: context \<open>i\<close> decodes to
  the tokens of item \<open>i\<close>, and its spans are the span boundaries of item \<open>i\<close>.
\<close>

definition round_trip :: "kb \<Rightarrow> string \<Rightarrow> (string list \<times> (int \<times> int) list) list \<Rightarrow> bool" where
  "round_trip s ds items \<longleftrightarrow>
     num_contexts ds s = length items
     \<and> (\<forall>i < length items. \<exists>ids ss es.
           context_at (int i) ds s = Inr ids \<and> decode (kb_vocab s) ids = Inr (fst (items ! i))
           \<and> spans (int i) ds s = Inr (ss, es)
           \<and> map int ss = map fst (snd (items ! i)) \<and> map int es = map snd (snd (items ! i)))"

text \<open>
  The entity index: one id per entity, the three dictionaries with the same partitions,
  and in every partition one mention list per entity.
\<close>

definition index_inv :: "factkb \<Rightarrow> bool" where
  "index_inv f \<longleftrightarrow>
     length (fkb_entity_ids f) = length (fkb_entity_vocab f)
     \<and> (\<forall>e j. map_of (fkb_entity_ids f) e = Some j \<longrightarrow> j < length (fkb_entity_vocab f))
     \<and> distinct (map fst (fkb_entity_ctxt f))
     \<and> (\<forall>ds. map_of (fkb_entity_ctxt_span f) ds = None \<longleftrightarrow> map_of (fkb_entity_ctxt f) ds = None)
     \<and> (\<forall>ds. map_of (fkb_facts f) ds = None \<longleftrightarrow> map_of (fkb_entity_ctxt f) ds = None)
     \<and> (\<forall>ds l. map_of (fkb_entity_ctxt f) ds = Some l \<longrightarrow> length l = length (fkb_entity_vocab f))
     \<and> (\<forall>ds l. map_of (fkb_entity_ctxt_span f) ds = Some l \<longrightarrow> length l = length (fkb_entity_vocab f))"

section \<open>Example stores\<close>

text \<open>Two contexts added to the partition \<open>train\<close> of a fresh store.\<close>

definition two_contexts :: kb where
  "two_contexts = snd (add [''d''] [(0, 1)] None ''train''
      (snd (add [''a'', ''b'', ''c''] [(1, 2)] None ''train'' kb_init)))"

text \<open>One context in which \<open>b\<close> occurs twice, \<open>a\<close> and \<open>c\<close> once.\<close>

definition tied_counts :: kb where
  "tied_counts = snd (add [''a'', ''b'', ''b'', ''c''] [(0, 1)] None ''train'' kb_init)"

text \<open>Two calls of \<open>add\<close> on the partition \<open>train\<close>, the second one with answers.\<close>

definition two_calls :: "add_call list" where
  "two_calls =
     [\<lparr>call_context = [''a'', ''b'', ''c''], call_spans = [(1, 2)], call_answers = None,
       call_dataset = ''train''\<rparr>,
      \<lparr>call_context = [''d'', ''a''], call_spans = [(0, 1), (1, 2)], call_answers = Some [''x'', ''d''],
       call_dataset = ''train''\<rparr>]"

text \<open>The fact of the specification, on a fresh index.\<close>

definition paris_fact :: factkb where
  "paris_fact = snd (add_fact (Tokens [''Paris'', ''is'', ''capital'', ''of'', ''France''])
      [(0, 1), (3, 4)] None ''train'' (factkb_init None))"

text \<open>A second fact, given as text, in a partition created after the entities exist.\<close>

definition paris_valid :: factkb where
  "paris_valid = snd (add_fact (Text ''Paris is in France'') [(0, 1), (3, 4)] None ''valid'' paris_fact)"

text \<open>The same one-entity fact added twice.\<close>

definition paris_twice :: factkb where
  "paris_twice = snd (add_fact (Tokens [''Paris'', ''is'', ''big'']) [(0, 1)] None ''train''
      (snd (add_fact (Tokens [''Paris'', ''is'', ''big'']) [(0, 1)] None ''train'' (factkb_init None))))"

section \<open>Python indexing\<close>

lemma list_index_out:
  "int (length xs) \<le> i \<or> i < - int (length xs) \<Longrightarrow> list_index xs i = Inl IndexError"
  by (auto simp: list_index_def)

lemma list_index_wrap:
  "- int (length xs) \<le> i \<Longrightarrow> i < 0 \<Longrightarrow> list_index xs i = list_index xs (int (length xs) + i)"
  by (auto simp: list_index_def)

lemma list_index_nat: "i < length xs \<Longrightarrow> list_index xs (int i) = Inr (xs ! i)"
  by (simp add: list_index_def)

section \<open>Validation in \<open>add\<close>\<close>

text \<open>
  C9.  A call of \<open>add\<close> with an empty list of spans raises the assertion error, whatever
  the store and the other arguments are; the only field it has written by then is the
  \<open>ordered\<close> flag, so \<open>num_contexts\<close> of the partition is what it was.
\<close>

theorem add_no_spans_fails:
  "add ctx [] ans ds s = (Inl AssertionError, s\<lparr>kb_ordered := False\<rparr>)
   \<and> num_contexts ds (snd (add ctx [] ans ds s)) = num_contexts ds s"
  by (simp add: add_def num_contexts_def)

text \<open>
  C1.  The length of \<open>answers\<close> is asserted on line 59, after the offsets, the tokens
  and the spans of the context have been written.  On a fresh store, adding the context
  \<open>a b c\<close> with one span and an empty list of answers raises the assertion error and
  leaves one context, three vocabulary entries and the packed tokens behind.
\<close>

theorem add_answers_mismatch_mutates:
  "fst (add [''a'', ''b'', ''c''] [(1, 2)] (Some []) ''train'' kb_init) = Inl AssertionError
   \<and> num_contexts ''train'' kb_init = 0
   \<and> num_contexts ''train'' (snd (add [''a'', ''b'', ''c''] [(1, 2)] (Some []) ''train'' kb_init)) = 1
   \<and> kb_vocab kb_init = []
   \<and> kb_vocab (snd (add [''a'', ''b'', ''c''] [(1, 2)] (Some []) ''train'' kb_init)) = [''a'', ''b'', ''c'']
   \<and> kb_contexts (snd (add [''a'', ''b'', ''c''] [(1, 2)] (Some []) ''train'' kb_init)) = [(''train'', [0, 1, 2])]
   \<and> kb_starts (snd (add [''a'', ''b'', ''c''] [(1, 2)] (Some []) ''train'' kb_init)) = [(''train'', [1])]"
  by code_simp

section \<open>Reading answers\<close>

text \<open>
  C2.  After \<open>add(["a","b","c"], [(1,2)], answers=None)\<close> on a fresh store the call
  succeeds with index 0, and \<open>answers(0)\<close> returns the empty slice of the partition's
  answer array, not the token id of \<open>b\<close> (which is 1): the test \<open>if self.__answers\<close>
  is true once the partition exists.
\<close>

theorem answers_without_answers_empty:
  "fst (add [''a'', ''b'', ''c''] [(1, 2)] None ''train'' kb_init) = Inr 0
   \<and> answers 0 ''train'' (snd (add [''a'', ''b'', ''c''] [(1, 2)] None ''train'' kb_init)) = Inr []
   \<and> context_at 0 ''train'' (snd (add [''a'', ''b'', ''c''] [(1, 2)] None ''train'' kb_init)) = Inr [0, 1, 2]
   \<and> kb_vocab (snd (add [''a'', ''b'', ''c''] [(1, 2)] None ''train'' kb_init)) ! 1 = ''b''"
  by code_simp

section \<open>Reading a context by index\<close>

text \<open>
  C8, as the code has it.  In an existing partition with \<open>n\<close> contexts, \<open>context(i)\<close>
  raises \<open>IndexError\<close> when \<open>i \<ge> n\<close> or \<open>i < -n\<close>.  For \<open>-n \<le> i < -1\<close> Python's
  negative indexing applies and the call returns what \<open>context(n + i)\<close> returns.
\<close>

theorem context_at_index:
  assumes "map_of (kb_context_offsets s) ds = Some offs"
  shows "(int (length offs) \<le> i \<or> i < - int (length offs) \<longrightarrow> context_at i ds s = Inl IndexError)
       \<and> (- int (length offs) \<le> i \<and> i < - 1 \<longrightarrow> context_at i ds s = context_at (int (length offs) + i) ds s)"
proof (intro conjI impI)
  assume "int (length offs) \<le> i \<or> i < - int (length offs)"
  then show "context_at i ds s = Inl IndexError"
    using assms by (simp add: context_at_def list_index_out)
next
  assume a: "- int (length offs) \<le> i \<and> i < - 1"
  then have 1: "list_index offs i = list_index offs (int (length offs) + i)"
    by (simp add: list_index_wrap)
  from a have 2: "list_index offs (i + 1) = list_index offs (int (length offs) + i + 1)"
    using list_index_wrap [of offs "i + 1"] by (simp add: add.assoc)
  from a show "context_at i ds s = context_at (int (length offs) + i) ds s"
    using assms 1 2 by (simp add: context_at_def split: sum.splits)
qed

theorem context_at_index_witness:
  "context_at 2 ''train'' two_contexts = Inl IndexError
   \<and> context_at (- 3) ''train'' two_contexts = Inl IndexError
   \<and> context_at (- 2) ''train'' two_contexts = context_at 0 ''train'' two_contexts"
proof -
  have k: "map_of (kb_context_offsets two_contexts) ''train'' = Some [0, 3]"
    unfolding two_contexts_def by code_simp
  show ?thesis
    using context_at_index [OF k, of 2] context_at_index [OF k, of "- 3"]
      context_at_index [OF k, of "- 2"]
    by simp
qed

text \<open>
  The claim as stated fails on a store with two contexts: index \<open>-2\<close> is outside
  \<open>[0, 2)\<close>, and \<open>context(-2)\<close> returns the first stored context.
\<close>

theorem context_negative_index_wraps:
  "num_contexts ''train'' two_contexts = 2
   \<and> context_at (- 2) ''train'' two_contexts = Inr [0, 1, 2]
   \<and> context_at 0 ''train'' two_contexts = Inr [0, 1, 2]"
  unfolding two_contexts_def by code_simp

section \<open>The vocabulary invariant\<close>

lemma set_update_cases:
  "p \<in> set (AList.update k v al) \<Longrightarrow> p = (k, v) \<or> p \<in> set al"
  by (induction al) (auto split: if_splits)

lemma map_of_update_same: "map_of (AList.update k v al) k = Some v"
  by (simp add: update_conv')

lemma map_of_update_other: "k' \<noteq> k \<Longrightarrow> map_of (AList.update k v al) k' = map_of al k'"
  by (simp add: update_conv')

lemma map_of_in_set: "map_of al k = Some v \<Longrightarrow> (k, v) \<in> set al"
  by (rule map_of_SomeD)

lemma add_to_vocab_ok:
  assumes "vocab_ok s" and "add_to_vocab w s = (r, s')"
  shows "vocab_ok s'"
    and "r = Inr i \<Longrightarrow> i < length (kb_vocab s')"
    and "length (kb_vocab s) \<le> length (kb_vocab s')"
    and "kb_contexts s' = kb_contexts s" and "kb_ordered s' = kb_ordered s"
  using assms
  by (auto simp: add_to_vocab_def vocab_ok_def Let_def map_of_update_same less_Suc_eq
      split: if_splits option.splits dest!: set_update_cases map_of_SomeD)

lemma add_to_answer_vocab_frame:
  assumes "add_to_answer_vocab w s = (r, s')"
  shows "kb_vocab s' = kb_vocab s" and "kb_count s' = kb_count s" and "kb_ids s' = kb_ids s"
    and "kb_contexts s' = kb_contexts s" and "kb_ordered s' = kb_ordered s"
    and "kb_answers s' = kb_answers s"
  using assms
  by (auto simp: add_to_answer_vocab_def Let_def split: if_splits option.splits)

lemma add_to_answer_vocab_ok:
  "vocab_ok s \<Longrightarrow> add_to_answer_vocab w s = (r, s') \<Longrightarrow> vocab_ok s'"
  by (simp add: vocab_ok_def add_to_answer_vocab_frame)

lemma new_partition_ok: "vocab_ok s \<Longrightarrow> vocab_ok (new_partition ds s)"
  by (auto simp: vocab_ok_def new_partition_def dest!: set_update_cases)

lemma new_partition_ordered: "kb_ordered (new_partition ds s) = kb_ordered s"
  by (simp add: new_partition_def)

lemma add_offsets_ok:
  "vocab_ok s \<Longrightarrow> add_offsets ds s = (r, s') \<Longrightarrow> vocab_ok s'"
  by (auto simp: vocab_ok_def add_offsets_def Let_def split: option.splits)

lemma add_offsets_ordered: "add_offsets ds s = (r, s') \<Longrightarrow> kb_ordered s' = kb_ordered s"
  by (auto simp: add_offsets_def Let_def split: option.splits)

lemma array_append_set:
  "array_append d k v = Inr d' \<Longrightarrow> (k', xs) \<in> set d' \<Longrightarrow>
     (k', xs) \<in> set d \<or> (\<exists>ys. (k, ys) \<in> set d \<and> xs = ys @ [nat v] \<and> k' = k)"
  by (auto simp: array_append_def split: option.splits if_splits dest!: set_update_cases map_of_SomeD)

lemma extend_contexts_ok:
  "vocab_ok s \<Longrightarrow> extend_contexts ds ws s = (r, s') \<Longrightarrow> vocab_ok s' \<and> kb_ordered s' = kb_ordered s"
proof (induction ws arbitrary: s)
  case Nil
  then show ?case by simp
next
  case (Cons w ws)
  obtain r1 s1 where a: "add_to_vocab w s = (r1, s1)" by (cases "add_to_vocab w s")
  note ok1 = add_to_vocab_ok [OF Cons.prems(1) a]
  show ?case
  proof (cases r1)
    case (Inl e)
    with Cons.prems a ok1 show ?thesis by simp
  next
    case (Inr i)
    show ?thesis
    proof (cases "array_append (kb_contexts s1) ds (int i)")
      case (Inl e)
      with Cons.prems a ok1 Inr show ?thesis by simp
    next
      case inr: (Inr c)
      have "vocab_ok (s1\<lparr>kb_contexts := c\<rparr>)"
        using ok1(1) ok1(2) [OF Inr] array_append_set [OF inr]
        by (fastforce simp: vocab_ok_def)
      from Cons.IH [OF this] Cons.prems(2) a Inr inr ok1(5) show ?thesis by simp
    qed
  qed
qed

lemma append_spans_frame:
  "append_spans ds sp s = (r, s') \<Longrightarrow>
     kb_vocab s' = kb_vocab s \<and> kb_count s' = kb_count s \<and> kb_ids s' = kb_ids s
     \<and> kb_contexts s' = kb_contexts s \<and> kb_ordered s' = kb_ordered s
     \<and> kb_context_offsets s' = kb_context_offsets s \<and> kb_span_offsets s' = kb_span_offsets s
     \<and> kb_answers s' = kb_answers s"
proof (induction sp arbitrary: s)
  case Nil
  then show ?case by simp
next
  case (Cons a sp)
  then show ?case
    by (fastforce simp: Let_def split: sum.splits)
qed

lemma append_spans_ok:
  "vocab_ok s \<Longrightarrow> append_spans ds sp s = (r, s') \<Longrightarrow> vocab_ok s' \<and> kb_ordered s' = kb_ordered s"
  using append_spans_frame [of ds sp s r s'] by (simp add: vocab_ok_def)

lemma append_answers_ok:
  "vocab_ok s \<Longrightarrow> append_answers ds as s = (r, s') \<Longrightarrow> vocab_ok s' \<and> kb_ordered s' = kb_ordered s"
proof (induction as arbitrary: s)
  case Nil
  then show ?case by simp
next
  case (Cons a as)
  show ?case
  proof (cases "map_of (kb_answers s) ds")
    case None
    with Cons.prems show ?thesis by simp
  next
    case (Some arr)
    obtain r1 s1 where a1: "add_to_answer_vocab a s = (r1, s1)"
      by (cases "add_to_answer_vocab a s")
    have ok1: "vocab_ok s1" and o1: "kb_ordered s1 = kb_ordered s"
      using add_to_answer_vocab_ok [OF Cons.prems(1) a1] add_to_answer_vocab_frame [OF a1]
      by simp_all
    show ?thesis
    proof (cases r1)
      case (Inl e)
      with Cons.prems Some a1 ok1 o1 show ?thesis by simp
    next
      case (Inr i)
      show ?thesis
      proof (cases "array_append (kb_answers s1) ds (int i)")
        case (Inl e)
        with Cons.prems Some a1 ok1 o1 Inr show ?thesis by simp
      next
        case inr: (Inr an)
        obtain r2 s2 where a2: "add_to_vocab a (s1\<lparr>kb_answers := an\<rparr>) = (r2, s2)"
          by (cases "add_to_vocab a (s1\<lparr>kb_answers := an\<rparr>)")
        have "vocab_ok (s1\<lparr>kb_answers := an\<rparr>)"
          using ok1 by (simp add: vocab_ok_def)
        note ok2 = add_to_vocab_ok [OF this a2]
        show ?thesis
        proof (cases r2)
          case (Inl e)
          with Cons.prems Some a1 Inr inr a2 ok2 o1 show ?thesis by simp
        next
          case inr2: (Inr j)
          from Cons.IH [OF ok2(1)] Cons.prems(2) Some a1 Inr inr a2 inr2 ok2(5) o1
          show ?thesis by simp
        qed
      qed
    qed
  qed
qed

lemma add_answers_ok:
  "vocab_ok s \<Longrightarrow> add_answers ds sp ans s = (r, s') \<Longrightarrow> vocab_ok s' \<and> kb_ordered s' = kb_ordered s"
  by (auto simp: add_answers_def split: option.splits if_splits dest: append_answers_ok)

lemma add_vocab_ok:
  assumes "vocab_ok s"
  shows "vocab_ok (snd (add ctx sp ans ds s)) \<and> \<not> kb_ordered (snd (add ctx sp ans ds s))"
proof (cases "sp = []")
  case True
  with assms show ?thesis by (simp add: add_def vocab_ok_def)
next
  case False
  define s0 where "s0 = s\<lparr>kb_ordered := False\<rparr>"
  define s1 where "s1 = (if map_of (kb_contexts s0) ds = None then new_partition ds s0 else s0)"
  have ok0: "vocab_ok s0" and o0: "\<not> kb_ordered s0"
    using assms by (simp_all add: s0_def vocab_ok_def)
  have ok1: "vocab_ok s1" and o1: "\<not> kb_ordered s1"
    using ok0 o0 by (simp_all add: s1_def new_partition_ok new_partition_ordered)
  obtain r2 s2 where p2: "add_offsets ds s1 = (r2, s2)" by (cases "add_offsets ds s1")
  have ok2: "vocab_ok s2" and o2: "\<not> kb_ordered s2"
    using add_offsets_ok [OF ok1 p2] add_offsets_ordered [OF p2] o1 by simp_all
  obtain r3 s3 where p3: "extend_contexts ds ctx s2 = (r3, s3)" by (cases "extend_contexts ds ctx s2")
  have ok3: "vocab_ok s3" and o3: "\<not> kb_ordered s3"
    using extend_contexts_ok [OF ok2 p3] o2 by simp_all
  obtain r4 s4 where p4: "append_spans ds sp s3 = (r4, s4)" by (cases "append_spans ds sp s3")
  have ok4: "vocab_ok s4" and o4: "\<not> kb_ordered s4"
    using append_spans_ok [OF ok3 p4] o3 by simp_all
  obtain r5 s5 where p5: "add_answers ds sp ans s4 = (r5, s5)" by (cases "add_answers ds sp ans s4")
  have ok5: "vocab_ok s5" and o5: "\<not> kb_ordered s5"
    using add_answers_ok [OF ok4 p5] o4 by simp_all
  have ok6: "vocab_ok (s5\<lparr>kb_max_context_length := a, kb_max_span_length := b\<rparr>)" for a b
    using ok5 by (simp add: vocab_ok_def)
  show ?thesis
    using False p2 p3 p4 p5 ok2 o2 ok3 o3 ok4 o4 ok5 o5 ok6
    by (auto simp: add_def Let_def s0_def [symmetric] s1_def [symmetric] split: option.splits)
qed

section \<open>Sorting by frequency\<close>

lemma is_argsort_stable: "is_argsort argsort_stable"
  by (simp add: is_argsort_def argsort_stable_def)

lemma is_argsort_ties_reversed: "is_argsort argsort_ties_reversed"
proof -
  have "sorted (map (\<lambda>i. cs ! i) (argsort_ties_reversed cs))" for cs
  proof -
    let ?xs = "sort_key (\<lambda>i. - int (cs ! i)) [0..<length cs]"
    have "sorted (map (\<lambda>i. - int (cs ! i)) ?xs)" by (rule sorted_sort_key)
    then have "sorted_wrt (\<lambda>x y. cs ! y \<le> cs ! x) ?xs" by (simp add: sorted_wrt_map)
    then have "sorted_wrt (\<lambda>x y. cs ! x \<le> cs ! y) (rev ?xs)" by (simp add: sorted_wrt_rev)
    then show ?thesis by (simp add: argsort_ties_reversed_def sorted_wrt_map)
  qed
  then show ?thesis by (simp add: is_argsort_def) (simp add: argsort_ties_reversed_def)
qed

lemma argsort_props:
  assumes "is_argsort argsort"
  shows "length (argsort cs) = length cs" "set (argsort cs) = {0..<length cs}" "distinct (argsort cs)"
    "sorted (map (\<lambda>i. cs ! i) (argsort cs))"
proof -
  show s: "set (argsort cs) = {0..<length cs}" and d: "distinct (argsort cs)"
    and "sorted (map (\<lambda>i. cs ! i) (argsort cs))"
    using assms by (simp_all add: is_argsort_def)
  from distinct_card [OF d] s show "length (argsort cs) = length cs" by simp
qed

lemma freq_order_props:
  assumes "is_argsort argsort"
  shows "length (freq_order argsort s) = length (kb_count s)"
    "set (freq_order argsort s) = {0..<length (kb_count s)}"
    "distinct (freq_order argsort s)"
    "sorted_wrt (\<ge>) (map (\<lambda>i. kb_count s ! i) (freq_order argsort s))"
proof -
  note a = argsort_props [OF assms, of "kb_count s"]
  have "sorted_wrt (\<ge>) (rev (map (\<lambda>i. kb_count s ! i) (argsort (kb_count s))))"
    using a(4) by (simp add: sorted_wrt_rev)
  then show "sorted_wrt (\<ge>) (map (\<lambda>i. kb_count s ! i) (freq_order argsort s))"
    by (simp add: freq_order_def rev_map)
qed (simp_all add: freq_order_def argsort_props [OF assms])

lemma build_mapping_result:
  assumes "\<forall>k \<in> set ks. k < length m \<and> k < length (kb_vocab s) \<and> k < length (kb_count s)"
  shows "\<exists>m'. build_mapping s i ks (m, nv, nc) =
            Inr (m', nv @ map (\<lambda>k. kb_vocab s ! k) ks, nc @ map (\<lambda>k. kb_count s ! k) ks)
          \<and> length m' = length m
          \<and> (\<forall>x. x \<notin> set ks \<longrightarrow> m' ! x = m ! x)
          \<and> (distinct ks \<longrightarrow> (\<forall>p < length ks. m' ! (ks ! p) = i + p))"
  using assms
proof (induction ks arbitrary: i m nv nc)
  case Nil
  then show ?case by simp
next
  case (Cons k ks)
  let ?m = "m[k := i]"
  have pre: "\<forall>k \<in> set ks. k < length ?m \<and> k < length (kb_vocab s) \<and> k < length (kb_count s)"
    using Cons.prems by simp
  from Cons.IH [OF pre, of "i + 1" "nv @ [kb_vocab s ! k]" "nc @ [kb_count s ! k]"]
  obtain m' where m': "build_mapping s (i + 1) ks (?m, nv @ [kb_vocab s ! k], nc @ [kb_count s ! k]) =
            Inr (m', (nv @ [kb_vocab s ! k]) @ map (\<lambda>k. kb_vocab s ! k) ks,
                     (nc @ [kb_count s ! k]) @ map (\<lambda>k. kb_count s ! k) ks)"
      and len: "length m' = length ?m"
      and out: "\<forall>x. x \<notin> set ks \<longrightarrow> m' ! x = ?m ! x"
      and pos: "distinct ks \<longrightarrow> (\<forall>p < length ks. m' ! (ks ! p) = i + 1 + p)"
    by blast
  have "distinct (k # ks) \<longrightarrow> (\<forall>p < length (k # ks). m' ! ((k # ks) ! p) = i + p)"
  proof (intro impI allI)
    fix p assume d: "distinct (k # ks)" and p: "p < length (k # ks)"
    show "m' ! ((k # ks) ! p) = i + p"
    proof (cases p)
      case 0
      with d out Cons.prems show ?thesis by simp
    next
      case (Suc p')
      with d p pos show ?thesis by simp
    qed
  qed
  with m' len out Cons.prems show ?case by auto
qed

lemma remap_array_length: "length (snd (remap_array m xs)) = length xs"
  by (induction xs) (auto split: prod.splits)

lemma remap_array_ok:
  "\<forall>x \<in> set xs. x < length m \<and> int (m ! x) \<le> UINT_MAX \<Longrightarrow>
     remap_array m xs = (None, map (\<lambda>x. m ! x) xs)"
  by (induction xs) auto

lemma remap_array_None:
  "remap_array m xs = (None, ys) \<Longrightarrow> ys = map (\<lambda>x. m ! x) xs"
  by (induction xs arbitrary: ys) (auto split: if_splits prod.splits)

lemma remap_array_bounded:
  assumes "\<forall>x \<in> set xs. x < n" and "\<forall>x < length m. m ! x < n"
  shows "\<forall>y \<in> set (snd (remap_array m xs)). y < n"
  using assms by (induction xs) (auto split: prod.splits)

lemma remap_ids_ok:
  "\<forall>w i. (w, i) \<in> set d \<longrightarrow> i < length m \<Longrightarrow>
     remap_ids m d = (None, map (\<lambda>(w, i). (w, m ! i)) d)"
  by (induction d) auto

lemma remap_contexts_ok:
  "\<forall>d c x. (d, c) \<in> set cs \<longrightarrow> x \<in> set c \<longrightarrow> x < length m \<and> int (m ! x) \<le> UINT_MAX \<Longrightarrow>
     remap_contexts m cs = (None, map (\<lambda>(d, c). (d, map (\<lambda>x. m ! x) c)) cs)"
proof (induction cs)
  case Nil
  then show ?case by simp
next
  case (Cons a cs)
  obtain d c where a: "a = (d, c)" by (cases a)
  have "remap_array m c = (None, map (\<lambda>x. m ! x) c)"
    using Cons.prems a by (intro remap_array_ok) auto
  moreover have "remap_contexts m cs = (None, map (\<lambda>(d, c). (d, map (\<lambda>x. m ! x) c)) cs)"
    using Cons.prems by (intro Cons.IH) auto
  ultimately show ?case using a by simp
qed

lemma remap_contexts_None:
  "remap_contexts m cs = (None, cs') \<Longrightarrow> cs' = map (\<lambda>(d, c). (d, map (\<lambda>x. m ! x) c)) cs"
proof (induction cs arbitrary: cs')
  case Nil
  then show ?case by simp
next
  case (Cons a cs)
  obtain d c where a: "a = (d, c)" by (cases a)
  obtain e c' where r: "remap_array m c = (e, c')" by (cases "remap_array m c")
  obtain e2 r2 where r2: "remap_contexts m cs = (e2, r2)" by (cases "remap_contexts m cs")
  from Cons.prems a r r2 have e: "e = None" and e2: "e2 = None" and cs': "cs' = (d, c') # r2"
    by (cases e; cases e2; simp)+
  from remap_array_None [OF r [unfolded e]] Cons.IH [OF r2 [unfolded e2]] a cs'
  show ?case by simp
qed

lemma remap_contexts_bounded:
  assumes "\<forall>d c x. (d, c) \<in> set cs \<longrightarrow> x \<in> set c \<longrightarrow> x < n" and "\<forall>x < length m. m ! x < n"
  shows "\<forall>d c x. (d, c) \<in> set (snd (remap_contexts m cs)) \<longrightarrow> x \<in> set c \<longrightarrow> x < n"
  using assms(1)
proof (induction cs)
  case Nil
  then show ?case by simp
next
  case (Cons a cs)
  obtain d c where a: "a = (d, c)" by (cases a)
  obtain e c' where r: "remap_array m c = (e, c')" by (cases "remap_array m c")
  have "\<forall>x \<in> set c. x < n" using Cons.prems a by auto
  from remap_array_bounded [OF this assms(2)] r have c': "\<forall>y \<in> set c'. y < n" by simp
  have rest: "\<forall>d c x. (d, c) \<in> set cs \<longrightarrow> x \<in> set c \<longrightarrow> x < n" using Cons.prems by auto
  note ih = Cons.IH [OF rest]
  show ?case
  proof (cases e)
    case None
    with a r c' ih show ?thesis by (auto split: prod.splits)
  next
    case (Some err)
    with a r c' rest show ?thesis by auto
  qed
qed

lemma remap_contexts_shape:
  "map fst (snd (remap_contexts m cs)) = map fst cs
   \<and> map (\<lambda>p. length (snd p)) (snd (remap_contexts m cs)) = map (\<lambda>p. length (snd p)) cs"
proof (induction cs)
  case Nil
  then show ?case by simp
next
  case (Cons a cs)
  obtain d c where a: "a = (d, c)" by (cases a)
  obtain e c' where r: "remap_array m c = (e, c')" by (cases "remap_array m c")
  have "length c' = length c" using remap_array_length [of m c] r by simp
  with Cons a r show ?case by (cases e) (auto split: prod.splits)
qed

lemma decode_ok: "\<forall>x \<in> set xs. x < length v \<Longrightarrow> decode v xs = Inr (map (\<lambda>x. v ! x) xs)"
  by (induction xs) auto

lemma decode_Inr: "decode v xs = Inr ws \<Longrightarrow> (\<forall>x \<in> set xs. x < length v) \<and> ws = map (\<lambda>x. v ! x) xs"
  by (induction xs arbitrary: ws) (auto split: if_splits sum.splits)

lemma order_steps:
  assumes ar: "is_argsort argsort" and ok: "vocab_ok s" and no: "\<not> kb_ordered s"
  shows "\<exists>m e cs. length m = length (kb_vocab s)
      \<and> (\<forall>x < length (kb_vocab s). m ! x < length (kb_vocab s) \<and> freq_order argsort s ! (m ! x) = x)
      \<and> remap_contexts m (kb_contexts s) = (e, cs)
      \<and> order_vocab_by_freq argsort s =
          (e, s\<lparr>kb_vocab := map (\<lambda>k. kb_vocab s ! k) (freq_order argsort s),
                 kb_count := map (\<lambda>k. kb_count s ! k) (freq_order argsort s),
                 kb_ids := map (\<lambda>(w, i). (w, m ! i)) (kb_ids s),
                 kb_contexts := cs,
                 kb_ordered := (e = None)\<rparr>)"
proof -
  let ?n = "length (kb_vocab s)"
  let ?fo = "freq_order argsort s"
  have n: "length (kb_count s) = ?n" using ok by (simp add: vocab_ok_def)
  note fo = freq_order_props [OF ar, of s, unfolded n]
  have "\<forall>k \<in> set ?fo. k < length (replicate ?n (0::nat)) \<and> k < length (kb_vocab s) \<and> k < length (kb_count s)"
    using fo(2) n by simp
  from build_mapping_result [OF this, of 0 "[]" "[]"]
  obtain m where bm: "build_mapping s 0 ?fo (replicate ?n 0, [], []) =
        Inr (m, map (\<lambda>k. kb_vocab s ! k) ?fo, map (\<lambda>k. kb_count s ! k) ?fo)"
    and len: "length m = ?n"
    and pos: "\<forall>p < length ?fo. m ! (?fo ! p) = p"
    using fo(3) by auto
  have inv: "\<forall>x < ?n. m ! x < ?n \<and> ?fo ! (m ! x) = x"
  proof (intro allI impI)
    fix x assume "x < ?n"
    then have "x \<in> set ?fo" using fo(2) by simp
    then obtain p where p: "p < length ?fo" "?fo ! p = x" by (auto simp: in_set_conv_nth)
    with pos have "m ! x = p" by auto
    with p fo(1) show "m ! x < ?n \<and> ?fo ! (m ! x) = x" by simp
  qed
  have ids: "remap_ids m (kb_ids s) = (None, map (\<lambda>(w, i). (w, m ! i)) (kb_ids s))"
    using ok len by (intro remap_ids_ok) (auto simp: vocab_ok_def)
  obtain e cs where cs: "remap_contexts m (kb_contexts s) = (e, cs)"
    by (cases "remap_contexts m (kb_contexts s)")
  have "order_vocab_by_freq argsort s =
          (e, s\<lparr>kb_vocab := map (\<lambda>k. kb_vocab s ! k) ?fo,
                 kb_count := map (\<lambda>k. kb_count s ! k) ?fo,
                 kb_ids := map (\<lambda>(w, i). (w, m ! i)) (kb_ids s),
                 kb_contexts := cs,
                 kb_ordered := (e = None)\<rparr>)"
    using no bm ids cs by (cases e) (simp_all add: order_vocab_by_freq_def)
  with len inv cs show ?thesis by blast
qed

lemma order_result:
  assumes ar: "is_argsort argsort" and ok: "vocab_ok s" and no: "\<not> kb_ordered s" and su: "fst (order_vocab_by_freq argsort s) = None"
  shows "\<exists>m. length m = length (kb_vocab s)
      \<and> (\<forall>x < length (kb_vocab s). m ! x < length (kb_vocab s) \<and> freq_order argsort s ! (m ! x) = x)
      \<and> order_vocab_by_freq argsort s =
          (None, s\<lparr>kb_vocab := map (\<lambda>k. kb_vocab s ! k) (freq_order argsort s),
                    kb_count := map (\<lambda>k. kb_count s ! k) (freq_order argsort s),
                    kb_ids := map (\<lambda>(w, i). (w, m ! i)) (kb_ids s),
                    kb_contexts := map (\<lambda>(d, c). (d, map (\<lambda>x. m ! x) c)) (kb_contexts s),
                    kb_ordered := True\<rparr>)"
proof -
  from order_steps [OF ar ok no] obtain m e cs where
    len: "length m = length (kb_vocab s)"
    and inv: "\<forall>x < length (kb_vocab s). m ! x < length (kb_vocab s) \<and> freq_order argsort s ! (m ! x) = x"
    and rc: "remap_contexts m (kb_contexts s) = (e, cs)"
    and res: "order_vocab_by_freq argsort s =
          (e, s\<lparr>kb_vocab := map (\<lambda>k. kb_vocab s ! k) (freq_order argsort s),
                 kb_count := map (\<lambda>k. kb_count s ! k) (freq_order argsort s),
                 kb_ids := map (\<lambda>(w, i). (w, m ! i)) (kb_ids s),
                 kb_contexts := cs,
                 kb_ordered := (e = None)\<rparr>)"
    by blast
  from su res have e: "e = None" by simp
  from remap_contexts_None [OF rc [unfolded e]]
  have "cs = map (\<lambda>(d, c). (d, map (\<lambda>x. m ! x) c)) (kb_contexts s)" .
  with res e len inv show ?thesis by auto
qed

lemma order_success:
  assumes ar: "is_argsort argsort" and ok: "vocab_ok s" and small: "int (length (kb_vocab s)) \<le> UINT_MAX + 1"
  shows "fst (order_vocab_by_freq argsort s) = None"
proof (cases "kb_ordered s")
  case True
  then show ?thesis by (simp add: order_vocab_by_freq_def)
next
  case False
  from order_steps [OF ar ok False] obtain m e cs where
    len: "length m = length (kb_vocab s)"
    and inv: "\<forall>x < length (kb_vocab s). m ! x < length (kb_vocab s) \<and> freq_order argsort s ! (m ! x) = x"
    and rc: "remap_contexts m (kb_contexts s) = (e, cs)"
    and res: "fst (order_vocab_by_freq argsort s) = e"
    by force
  have "\<forall>d c x. (d, c) \<in> set (kb_contexts s) \<longrightarrow> x \<in> set c \<longrightarrow> x < length m \<and> int (m ! x) \<le> UINT_MAX"
  proof (intro allI impI)
    fix d c x assume "(d, c) \<in> set (kb_contexts s)" and "x \<in> set c"
    with ok have x: "x < length (kb_vocab s)" by (auto simp: vocab_ok_def)
    with inv have "m ! x < length (kb_vocab s)" by simp
    with small x len show "x < length m \<and> int (m ! x) \<le> UINT_MAX" by simp
  qed
  from remap_contexts_ok [OF this] rc res show ?thesis by simp
qed

lemma order_vocab_inv:
  assumes ar: "is_argsort argsort" and vi: "vocab_inv s"
  shows "vocab_inv (snd (order_vocab_by_freq argsort s))
     \<and> (fst (order_vocab_by_freq argsort s) = None \<longrightarrow> kb_ordered (snd (order_vocab_by_freq argsort s)))"
proof (cases "kb_ordered s")
  case True
  with vi show ?thesis by (simp add: order_vocab_by_freq_def)
next
  case False
  have ok: "vocab_ok s" using vi by (simp add: vocab_inv_def)
  from order_steps [OF ar ok False] obtain m e cs where
    len: "length m = length (kb_vocab s)"
    and inv: "\<forall>x < length (kb_vocab s). m ! x < length (kb_vocab s) \<and> freq_order argsort s ! (m ! x) = x"
    and rc: "remap_contexts m (kb_contexts s) = (e, cs)"
    and res: "order_vocab_by_freq argsort s =
          (e, s\<lparr>kb_vocab := map (\<lambda>k. kb_vocab s ! k) (freq_order argsort s),
                 kb_count := map (\<lambda>k. kb_count s ! k) (freq_order argsort s),
                 kb_ids := map (\<lambda>(w, i). (w, m ! i)) (kb_ids s),
                 kb_contexts := cs,
                 kb_ordered := (e = None)\<rparr>)"
    by blast
  have n: "length (kb_count s) = length (kb_vocab s)" using ok by (simp add: vocab_ok_def)
  have b1: "\<forall>d c x. (d, c) \<in> set (kb_contexts s) \<longrightarrow> x \<in> set c \<longrightarrow> x < length (kb_vocab s)"
    using ok by (auto simp: vocab_ok_def)
  have b2: "\<forall>x < length m. m ! x < length (kb_vocab s)" using inv len by simp
  from remap_contexts_bounded [OF b1 b2] rc
  have cb: "\<forall>d c x. (d, c) \<in> set cs \<longrightarrow> x \<in> set c \<longrightarrow> x < length (kb_vocab s)" by simp
  have "vocab_ok (snd (order_vocab_by_freq argsort s))"
    using ok inv cb by (auto simp: res vocab_ok_def freq_order_props [OF ar] n)
  moreover have "sorted_wrt (\<ge>) (kb_count (snd (order_vocab_by_freq argsort s)))"
    using freq_order_props(4) [OF ar, of s] by (simp add: res)
  ultimately show ?thesis by (simp add: vocab_inv_def res)
qed

lemma reachable_vocab_inv:
  assumes ar: "is_argsort argsort" and r: "reachable argsort s"
  shows "vocab_inv s"
  using r
proof (induction rule: reachable.induct)
  case reachable_init
  show ?case by (simp add: vocab_inv_def vocab_ok_def kb_init_def)
next
  case (reachable_add s ctx sp ans ds)
  then show ?case using add_vocab_ok [of s ctx sp ans ds] by (simp add: vocab_inv_def)
next
  case (reachable_order s)
  then show ?case using order_vocab_inv [OF ar] by blast
qed

lemma slice_map: "slice (map f xs) a b = map f (slice xs a b)"
  by (simp add: slice_def take_map drop_map)

lemma set_slice: "set (slice xs a b) \<subseteq> set xs"
  unfolding slice_def by (meson set_drop_subset set_take_subset subset_trans)

lemma map_of_map_val:
  "map_of (map (\<lambda>(k, v). (k, f v)) al) k = map_option f (map_of al k)"
  by (induction al) auto

lemma context_at_remap:
  assumes "kb_contexts s' = map (\<lambda>(d, c). (d, map f c)) (kb_contexts s)"
    and "kb_context_offsets s' = kb_context_offsets s"
  shows "context_at i ds s' = map_sum id (map f) (context_at i ds s)"
  using assms
  by (auto simp: context_at_def map_of_map_val slice_map split: option.splits sum.splits)

lemma context_at_bounded:
  assumes "vocab_ok s" and "context_at i ds s = Inr xs"
  shows "\<forall>x \<in> set xs. x < length (kb_vocab s)"
proof -
  from assms(2) obtain c a b where c: "map_of (kb_contexts s) ds = Some c" and xs: "xs = slice c a b"
    by (auto simp: context_at_def split: option.splits sum.splits if_splits)
  from c have "(ds, c) \<in> set (kb_contexts s)" by (rule map_of_SomeD)
  with assms(1) have "\<forall>x \<in> set c. x < length (kb_vocab s)" by (auto simp: vocab_ok_def)
  with xs set_slice [of c a b] show ?thesis by auto
qed

lemma reachable_tied_counts: "reachable argsort tied_counts"
  unfolding tied_counts_def by (intro reachable_add reachable_init)

text \<open>
  C7.  \<open>order_vocab_by_freq\<close> leaves the context offsets, the span offsets, the span
  starts and ends and the answer ids of every partition as they are, and the packed
  context arrays keep their partition names, their order and their lengths.  This holds
  for every store, also when the call stops with an exception.
\<close>

theorem order_vocab_by_freq_frame:
  "kb_context_offsets (snd (order_vocab_by_freq argsort s)) = kb_context_offsets s
   \<and> kb_span_offsets (snd (order_vocab_by_freq argsort s)) = kb_span_offsets s
   \<and> kb_starts (snd (order_vocab_by_freq argsort s)) = kb_starts s
   \<and> kb_ends (snd (order_vocab_by_freq argsort s)) = kb_ends s
   \<and> kb_answers (snd (order_vocab_by_freq argsort s)) = kb_answers s
   \<and> map fst (kb_contexts (snd (order_vocab_by_freq argsort s))) = map fst (kb_contexts s)
   \<and> map (\<lambda>p. length (snd p)) (kb_contexts (snd (order_vocab_by_freq argsort s)))
       = map (\<lambda>p. length (snd p)) (kb_contexts s)"
proof (cases "kb_ordered s")
  case True
  then show ?thesis by (simp add: order_vocab_by_freq_def)
next
  case False
  show ?thesis
  proof (cases "build_mapping s 0 (freq_order argsort s) (replicate (length (kb_vocab s)) 0, [], [])")
    case (Inl e)
    with False show ?thesis by (simp add: order_vocab_by_freq_def)
  next
    case (Inr t)
    obtain m nv nc where t: "t = (m, nv, nc)" by (cases t)
    obtain e1 ids where r1: "remap_ids m (kb_ids s) = (e1, ids)" by (cases "remap_ids m (kb_ids s)")
    obtain e2 cs where r2: "remap_contexts m (kb_contexts s) = (e2, cs)"
      by (cases "remap_contexts m (kb_contexts s)")
    have shape: "map fst cs = map fst (kb_contexts s)
        \<and> map (\<lambda>p. length (snd p)) cs = map (\<lambda>p. length (snd p)) (kb_contexts s)"
      using remap_contexts_shape [of m "kb_contexts s"] r2 by simp
    show ?thesis
      using False Inr t r1 r2 shape
      by (cases e1; cases e2) (simp_all add: order_vocab_by_freq_def)
  qed
qed

text \<open>
  C6.  For every \<open>argsort\<close> that meets the library's contract, on every store built by
  \<open>add\<close> and \<open>order_vocab_by_freq\<close> the call returns when the new ids fit the arrays
  (at most \<open>2^32\<close> symbols).  After a call that returned, every context that could be
  read before reads as ids that decode, through the new vocabulary, to the token strings
  it decoded to before; and a second call right after returns the store unchanged.
\<close>

theorem order_vocab_by_freq_decodes:
  assumes "is_argsort argsort" and "reachable argsort s"
  shows "(int (length (kb_vocab s)) \<le> UINT_MAX + 1 \<longrightarrow> fst (order_vocab_by_freq argsort s) = None)
     \<and> (fst (order_vocab_by_freq argsort s) = None \<longrightarrow>
          (\<forall>ds i xs. context_at i ds s = Inr xs \<longrightarrow>
             (\<exists>ys ws. context_at i ds (snd (order_vocab_by_freq argsort s)) = Inr ys
                \<and> decode (kb_vocab s) xs = Inr ws
                \<and> decode (kb_vocab (snd (order_vocab_by_freq argsort s))) ys = Inr ws))
          \<and> order_vocab_by_freq argsort (snd (order_vocab_by_freq argsort s)) = (None, snd (order_vocab_by_freq argsort s)))"
proof -
  note ar = assms(1)
  have vi: "vocab_inv s" using assms by (rule reachable_vocab_inv)
  then have ok: "vocab_ok s" by (simp add: vocab_inv_def)
  note o = order_vocab_inv [OF ar vi]
  have ret: "int (length (kb_vocab s)) \<le> UINT_MAX + 1 \<longrightarrow> fst (order_vocab_by_freq argsort s) = None"
    using order_success [OF ar ok] by blast
  have twice: "order_vocab_by_freq argsort (snd (order_vocab_by_freq argsort s)) = (None, snd (order_vocab_by_freq argsort s))"
    if "fst (order_vocab_by_freq argsort s) = None"
    using o that by (simp add: order_vocab_by_freq_def)
  have dec: "\<exists>ys ws. context_at i ds (snd (order_vocab_by_freq argsort s)) = Inr ys
              \<and> decode (kb_vocab s) xs = Inr ws
              \<and> decode (kb_vocab (snd (order_vocab_by_freq argsort s))) ys = Inr ws"
    if su: "fst (order_vocab_by_freq argsort s) = None" and c: "context_at i ds s = Inr xs" for ds i xs
  proof -
    have b: "\<forall>x \<in> set xs. x < length (kb_vocab s)" using ok c by (rule context_at_bounded)
    then have d: "decode (kb_vocab s) xs = Inr (map (\<lambda>x. kb_vocab s ! x) xs)" by (rule decode_ok)
    show ?thesis
    proof (cases "kb_ordered s")
      case True
      with c d show ?thesis by (simp add: order_vocab_by_freq_def)
    next
      case False
      from order_result [OF ar ok False su] obtain m where
        len: "length m = length (kb_vocab s)"
        and inv: "\<forall>x < length (kb_vocab s). m ! x < length (kb_vocab s) \<and> freq_order argsort s ! (m ! x) = x"
        and res: "order_vocab_by_freq argsort s =
          (None, s\<lparr>kb_vocab := map (\<lambda>k. kb_vocab s ! k) (freq_order argsort s),
                    kb_count := map (\<lambda>k. kb_count s ! k) (freq_order argsort s),
                    kb_ids := map (\<lambda>(w, i). (w, m ! i)) (kb_ids s),
                    kb_contexts := map (\<lambda>(d, c). (d, map (\<lambda>x. m ! x) c)) (kb_contexts s),
                    kb_ordered := True\<rparr>)"
        by blast
      let ?s' = "snd (order_vocab_by_freq argsort s)"
      have n: "length (kb_count s) = length (kb_vocab s)" using ok by (simp add: vocab_ok_def)
      have "context_at i ds ?s' = map_sum id (map (\<lambda>x. m ! x)) (context_at i ds s)"
        by (rule context_at_remap) (simp_all add: res)
      with c have c': "context_at i ds ?s' = Inr (map (\<lambda>x. m ! x) xs)" by simp
      have v': "kb_vocab ?s' = map (\<lambda>k. kb_vocab s ! k) (freq_order argsort s)" by (simp add: res)
      have "\<forall>y \<in> set (map (\<lambda>x. m ! x) xs). y < length (kb_vocab ?s')"
        using b inv by (auto simp: v' freq_order_props [OF ar] n)
      then have "decode (kb_vocab ?s') (map (\<lambda>x. m ! x) xs)
          = Inr (map (\<lambda>y. kb_vocab ?s' ! y) (map (\<lambda>x. m ! x) xs))" by (rule decode_ok)
      also have "map (\<lambda>y. kb_vocab ?s' ! y) (map (\<lambda>x. m ! x) xs) = map (\<lambda>x. kb_vocab s ! x) xs"
        using b inv by (auto simp: v' freq_order_props [OF ar] n)
      finally show ?thesis using c' d by simp
    qed
  qed
  from ret twice dec show ?thesis by blast
qed

theorem order_vocab_by_freq_decodes_witness:
  "is_argsort argsort_stable \<and> reachable argsort_stable tied_counts
   \<and> int (length (kb_vocab tied_counts)) \<le> UINT_MAX + 1
   \<and> context_at 0 ''train'' tied_counts = Inr [0, 1, 1, 2]
   \<and> fst (order_vocab_by_freq argsort_stable tied_counts) = None
   \<and> (\<exists>ys. context_at 0 ''train'' (snd (order_vocab_by_freq argsort_stable tied_counts)) = Inr ys
         \<and> decode (kb_vocab (snd (order_vocab_by_freq argsort_stable tied_counts))) ys = Inr [''a'', ''b'', ''b'', ''c''])
   \<and> order_vocab_by_freq argsort_stable (snd (order_vocab_by_freq argsort_stable tied_counts))
       = (None, snd (order_vocab_by_freq argsort_stable tied_counts))"
proof -
  have b: "int (length (kb_vocab tied_counts)) \<le> UINT_MAX + 1"
    unfolding tied_counts_def by code_simp
  have c: "context_at 0 ''train'' tied_counts = Inr [0, 1, 1, 2]"
    unfolding tied_counts_def by code_simp
  have d: "decode (kb_vocab tied_counts) [0, 1, 1, 2] = Inr [''a'', ''b'', ''b'', ''c'']"
    unfolding tied_counts_def by code_simp
  note t = order_vocab_by_freq_decodes [OF is_argsort_stable reachable_tied_counts]
  from t b have su: "fst (order_vocab_by_freq argsort_stable tied_counts) = None" by blast
  from t su c d have e: "\<exists>ys. context_at 0 ''train'' (snd (order_vocab_by_freq argsort_stable tied_counts)) = Inr ys
         \<and> decode (kb_vocab (snd (order_vocab_by_freq argsort_stable tied_counts))) ys = Inr [''a'', ''b'', ''b'', ''c'']"
    by fastforce
  from t su have tw: "order_vocab_by_freq argsort_stable (snd (order_vocab_by_freq argsort_stable tied_counts))
      = (None, snd (order_vocab_by_freq argsort_stable tied_counts))" by blast
  from is_argsort_stable reachable_tied_counts b c su e tw show ?thesis by (intro conjI)
qed

text \<open>
  C4, as the code has it.  For every \<open>argsort\<close> that meets the library's contract, on
  every store built by \<open>add\<close> and \<open>order_vocab_by_freq\<close> the call returns when the new
  ids fit the arrays (at most \<open>2^32\<close> symbols), and a call that returned leaves the
  counts in non-increasing order.  When the store was not yet ordered, the symbols are
  permuted: \<open>freq_order argsort s\<close> lists every old id once, and position \<open>p\<close> of the new
  vocabulary and of the new counts holds the symbol whose old id is
  \<open>freq_order argsort s ! p\<close>.  Which of two symbols with equal counts comes first is
  what \<open>argsort\<close> makes of it; the code adds no rule of its own.
\<close>

theorem order_vocab_by_freq_sorted:
  assumes "is_argsort argsort" and "reachable argsort s"
  shows "(int (length (kb_vocab s)) \<le> UINT_MAX + 1 \<longrightarrow> fst (order_vocab_by_freq argsort s) = None)
     \<and> (fst (order_vocab_by_freq argsort s) = None \<longrightarrow>
          sorted_wrt (\<ge>) (kb_count (snd (order_vocab_by_freq argsort s)))
          \<and> (\<not> kb_ordered s \<longrightarrow>
               distinct (freq_order argsort s)
               \<and> set (freq_order argsort s) = {0..<length (kb_vocab s)}
               \<and> kb_vocab (snd (order_vocab_by_freq argsort s)) = map (\<lambda>k. kb_vocab s ! k) (freq_order argsort s)
               \<and> kb_count (snd (order_vocab_by_freq argsort s)) = map (\<lambda>k. kb_count s ! k) (freq_order argsort s)))"
proof -
  note ar = assms(1)
  have vi: "vocab_inv s" using assms by (rule reachable_vocab_inv)
  then have ok: "vocab_ok s" by (simp add: vocab_inv_def)
  then have n: "length (kb_count s) = length (kb_vocab s)" by (simp add: vocab_ok_def)
  note o = order_vocab_inv [OF ar vi]
  have ret: "int (length (kb_vocab s)) \<le> UINT_MAX + 1 \<longrightarrow> fst (order_vocab_by_freq argsort s) = None"
    using order_success [OF ar ok] by blast
  have srt: "sorted_wrt (\<ge>) (kb_count (snd (order_vocab_by_freq argsort s)))"
    if "fst (order_vocab_by_freq argsort s) = None"
    using o that by (simp add: vocab_inv_def)
  have perm: "distinct (freq_order argsort s) \<and> set (freq_order argsort s) = {0..<length (kb_vocab s)}"
    using freq_order_props(2,3) [OF ar, of s] n by simp
  have res: "kb_vocab (snd (order_vocab_by_freq argsort s)) = map (\<lambda>k. kb_vocab s ! k) (freq_order argsort s)
          \<and> kb_count (snd (order_vocab_by_freq argsort s)) = map (\<lambda>k. kb_count s ! k) (freq_order argsort s)"
    if "fst (order_vocab_by_freq argsort s) = None" and "\<not> kb_ordered s"
    using order_result [OF ar ok that(2) that(1)] by auto
  from ret srt perm res show ?thesis by blast
qed

theorem order_vocab_by_freq_sorted_witness:
  "is_argsort argsort_ties_reversed \<and> reachable argsort_ties_reversed tied_counts
   \<and> int (length (kb_vocab tied_counts)) \<le> UINT_MAX + 1
   \<and> \<not> kb_ordered tied_counts
   \<and> freq_order argsort_ties_reversed tied_counts = [1, 0, 2]
   \<and> fst (order_vocab_by_freq argsort_ties_reversed tied_counts) = None
   \<and> sorted_wrt (\<ge>) (kb_count (snd (order_vocab_by_freq argsort_ties_reversed tied_counts)))
   \<and> kb_vocab (snd (order_vocab_by_freq argsort_ties_reversed tied_counts)) = map (\<lambda>k. kb_vocab tied_counts ! k) [1, 0, 2]
   \<and> kb_count (snd (order_vocab_by_freq argsort_ties_reversed tied_counts)) = map (\<lambda>k. kb_count tied_counts ! k) [1, 0, 2]"
proof -
  have b: "int (length (kb_vocab tied_counts)) \<le> UINT_MAX + 1"
    unfolding tied_counts_def by code_simp
  have no: "\<not> kb_ordered tied_counts" unfolding tied_counts_def by code_simp
  have fo: "freq_order argsort_ties_reversed tied_counts = [1, 0, 2]"
    unfolding tied_counts_def by code_simp
  note t = order_vocab_by_freq_sorted [OF is_argsort_ties_reversed reachable_tied_counts]
  from t b have su: "fst (order_vocab_by_freq argsort_ties_reversed tied_counts) = None" by blast
  from t su have s: "sorted_wrt (\<ge>) (kb_count (snd (order_vocab_by_freq argsort_ties_reversed tied_counts)))"
    by blast
  from t su no have v: "kb_vocab (snd (order_vocab_by_freq argsort_ties_reversed tied_counts))
      = map (\<lambda>k. kb_vocab tied_counts ! k) (freq_order argsort_ties_reversed tied_counts)" by blast
  from t su no have c: "kb_count (snd (order_vocab_by_freq argsort_ties_reversed tied_counts))
      = map (\<lambda>k. kb_count tied_counts ! k) (freq_order argsort_ties_reversed tied_counts)" by blast
  from is_argsort_ties_reversed reachable_tied_counts b no fo su s v [unfolded fo] c [unfolded fo]
  show ?thesis by (intro conjI)
qed

text \<open>
  The claim as stated fails on a store with counts \<open>[1, 2, 1]\<close>, where \<open>a\<close> (old id 0)
  and \<open>c\<close> (old id 2) both occur once.  With an \<open>argsort\<close> that lists equal counts in
  index order, which the library's contract admits, reversing the ascending order gives
  \<open>c\<close> the new id 1 and \<open>a\<close> the new id 2: the symbol with the larger old id gets the
  smaller new id.
\<close>

theorem order_vocab_ties_reversed:
  "is_argsort argsort_stable
   \<and> kb_vocab tied_counts = [''a'', ''b'', ''c''] \<and> kb_count tied_counts = [1, 2, 1]
   \<and> argsort_stable [1, 2, 1] = [0, 2, 1]
   \<and> fst (order_vocab_by_freq argsort_stable tied_counts) = None
   \<and> kb_vocab (snd (order_vocab_by_freq argsort_stable tied_counts)) = [''b'', ''c'', ''a'']
   \<and> kb_count (snd (order_vocab_by_freq argsort_stable tied_counts)) = [2, 1, 1]
   \<and> kb_ids (snd (order_vocab_by_freq argsort_stable tied_counts)) = [(''a'', 2), (''b'', 0), (''c'', 1)]"
proof -
  have "kb_vocab tied_counts = [''a'', ''b'', ''c''] \<and> kb_count tied_counts = [1, 2, 1]
   \<and> argsort_stable [1, 2, 1] = [0, 2, 1]
   \<and> fst (order_vocab_by_freq argsort_stable tied_counts) = None
   \<and> kb_vocab (snd (order_vocab_by_freq argsort_stable tied_counts)) = [''b'', ''c'', ''a'']
   \<and> kb_count (snd (order_vocab_by_freq argsort_stable tied_counts)) = [2, 1, 1]
   \<and> kb_ids (snd (order_vocab_by_freq argsort_stable tied_counts)) = [(''a'', 2), (''b'', 0), (''c'', 1)]"
    unfolding tied_counts_def by code_simp
  with is_argsort_stable show ?thesis by (rule conjI)
qed

section \<open>Reading back what was added\<close>

lemma vocab_ext_refl: "vocab_ext s s"
  by (simp add: vocab_ext_def)

lemma vocab_ext_trans: "vocab_ext s t \<Longrightarrow> vocab_ext t u \<Longrightarrow> vocab_ext s u"
  by (auto simp: vocab_ext_def)

lemma slice_append_old: "b \<le> length xs \<Longrightarrow> slice (xs @ ys) a b = slice xs a b"
  by (simp add: slice_def)

lemma slice_append_new: "slice (xs @ ys) (length xs) (length xs + length ys) = ys"
  by (simp add: slice_def)

lemma seg_append_old:
  assumes "i < length offs" and "\<forall>off \<in> set offs. off \<le> length arr"
  shows "seg (offs @ [length arr]) (arr @ new) i = seg offs arr i"
proof (cases "Suc i < length offs")
  case True
  then have "offs ! Suc i \<le> length arr" using assms(2) by simp
  with True assms(1) show ?thesis by (simp add: seg_def nth_append slice_append_old)
next
  case False
  with assms(1) have "Suc i = length offs" by simp
  with assms(1) show ?thesis by (simp add: seg_def nth_append slice_append_old)
qed

lemma seg_append_new: "seg (offs @ [length arr]) (arr @ new) (length offs) = new"
  by (simp add: seg_def slice_append_new)

lemma context_at_nat:
  assumes "map_of (kb_context_offsets s) ds = Some offs" and "map_of (kb_contexts s) ds = Some c"
    and "i < length offs"
  shows "context_at (int i) ds s = Inr (seg offs c i)"
proof -
  have 1: "list_index offs (int i) = Inr (offs ! i)" using assms(3) by (rule list_index_nat)
  have 2: "list_index offs (int i + 1) = Inr (offs ! Suc i)" if "Suc i < length offs"
    using list_index_nat [OF that] by (simp add: add.commute)
  show ?thesis
    using assms 1 2 by (auto simp: context_at_def seg_def)
qed

lemma spans_nat:
  assumes "map_of (kb_span_offsets s) ds = Some offs" and "map_of (kb_starts s) ds = Some st"
    and "map_of (kb_ends s) ds = Some en" and "length en = length st" and "i < length offs"
  shows "spans (int i) ds s = Inr (seg offs st i, seg offs en i)"
proof -
  have 1: "list_index offs (int i) = Inr (offs ! i)" using assms(5) by (rule list_index_nat)
  have 2: "list_index offs (int i + 1) = Inr (offs ! Suc i)" if "Suc i < length offs"
    using list_index_nat [OF that] by (simp add: add.commute)
  show ?thesis
    using assms 1 2 by (auto simp: spans_def seg_def)
qed

lemma add_to_vocab_step:
  assumes ok: "vocab_ok s" and io: "ids_ok s" and a: "add_to_vocab w s = (Inr i, s')"
  shows "vocab_ok s'" and "ids_ok s'" and "vocab_ext s s'"
    and "i < length (kb_vocab s')" and "kb_vocab s' ! i = w"
    and "layout s' = layout s"
proof -
  show "vocab_ok s'" and "i < length (kb_vocab s')"
    using add_to_vocab_ok [OF ok a] by simp_all
  show "layout s' = layout s"
    using a by (auto simp: add_to_vocab_def Let_def layout_def split: if_splits option.splits)
  show "vocab_ext s s'"
    using a by (auto simp: add_to_vocab_def Let_def vocab_ext_def nth_append split: if_splits option.splits)
  show "ids_ok s'"
    using a io ok
    by (auto simp: add_to_vocab_def Let_def ids_ok_def vocab_ok_def nth_append
        split: if_splits option.splits dest!: set_update_cases)
  show "kb_vocab s' ! i = w"
    using a io
    by (auto simp: add_to_vocab_def Let_def ids_ok_def map_of_update_same
        split: if_splits option.splits dest!: map_of_SomeD)
qed

lemma decode_Cons:
  "i < length v \<Longrightarrow> decode v is = Inr ws \<Longrightarrow> decode v (i # is) = Inr (v ! i # ws)"
  by simp

lemma vocab_ok_contexts_update:
  assumes "vocab_ok s" and "map_of (kb_contexts s) ds = Some c" and "\<forall>x \<in> set new. x < length (kb_vocab s)"
  shows "vocab_ok (s\<lparr>kb_contexts := AList.update ds (c @ new) (kb_contexts s)\<rparr>)"
  using assms by (auto simp: vocab_ok_def dest!: set_update_cases map_of_SomeD)

lemma extend_contexts_step:
  assumes "vocab_ok s" and "ids_ok s" and "map_of (kb_contexts s) ds = Some c"
    and "extend_contexts ds ws s = (None, s')"
  shows "\<exists>ids. vocab_ok s' \<and> ids_ok s' \<and> vocab_ext s s' \<and> decode (kb_vocab s') ids = Inr ws
      \<and> layout s' = (AList.update ds (c @ ids) (kb_contexts s), kb_context_offsets s,
            kb_starts s, kb_ends s, kb_span_offsets s)"
  using assms
proof (induction ws arbitrary: s c)
  case Nil
  then have "s' = s" by simp
  moreover have "AList.update ds c (kb_contexts s) = kb_contexts s"
    using Nil.prems(3) by (rule update_triv)
  ultimately show ?case using Nil.prems by (intro exI [of _ "[]"]) (simp add: vocab_ext_refl layout_def)
next
  case (Cons w ws)
  obtain r1 s1 where a: "add_to_vocab w s = (r1, s1)" by (cases "add_to_vocab w s")
  from Cons.prems(4) a obtain i where r1: "r1 = Inr i" by (cases r1) auto
  note st = add_to_vocab_step [OF Cons.prems(1,2) a [unfolded r1]]
  have cs1: "kb_contexts s1 = kb_contexts s" using st(6) by (simp add: layout_def)
  define s2 where "s2 = s1\<lparr>kb_contexts := AList.update ds (c @ [i]) (kb_contexts s)\<rparr>"
  have aa: "array_append (kb_contexts s1) ds (int i) = Inr (AList.update ds (c @ [i]) (kb_contexts s))
      \<or> (\<exists>e. array_append (kb_contexts s1) ds (int i) = Inl e)"
    using Cons.prems(3) by (simp add: array_append_def cs1)
  with Cons.prems(4) a r1
  have rest: "extend_contexts ds ws s2 = (None, s')"
    by (auto simp: s2_def)
  have ok2: "vocab_ok s2"
    unfolding s2_def cs1 [symmetric]
    using st(1) st(4) Cons.prems(3) by (intro vocab_ok_contexts_update) (simp_all add: cs1)
  have io2: "ids_ok s2" using st(2) by (simp add: s2_def ids_ok_def)
  have m2: "map_of (kb_contexts s2) ds = Some (c @ [i])" by (simp add: s2_def map_of_update_same)
  from Cons.IH [OF ok2 io2 m2 rest] obtain ids where
    ok': "vocab_ok s'" and io': "ids_ok s'" and ext': "vocab_ext s2 s'"
    and dec': "decode (kb_vocab s') ids = Inr ws"
    and eq': "layout s' = (AList.update ds ((c @ [i]) @ ids) (kb_contexts s2), kb_context_offsets s2,
            kb_starts s2, kb_ends s2, kb_span_offsets s2)"
    by blast
  have ext12: "vocab_ext s1 s2" by (simp add: s2_def vocab_ext_def)
  have ext: "vocab_ext s s'" using st(3) ext12 ext' by (blast intro: vocab_ext_trans)
  have ext1: "vocab_ext s1 s'" using ext12 ext' by (blast intro: vocab_ext_trans)
  have i': "i < length (kb_vocab s')" and w': "kb_vocab s' ! i = w"
    using ext1 st(4) st(5) by (auto simp: vocab_ext_def)
  have dec: "decode (kb_vocab s') (i # ids) = Inr (w # ws)"
    using decode_Cons [OF i' dec'] w' by simp
  have eq: "layout s' = (AList.update ds (c @ i # ids) (kb_contexts s), kb_context_offsets s,
            kb_starts s, kb_ends s, kb_span_offsets s)"
    using eq' st(6) by (simp add: s2_def layout_def)
  from ok' io' ext dec eq show ?case by blast
qed

lemma append_spans_step:
  assumes "map_of (kb_starts s) ds = Some st" and "map_of (kb_ends s) ds = Some en"
    and "append_spans ds sp s = (None, s')"
  shows "kb_starts s' = AList.update ds (st @ map (\<lambda>p. nat (fst p)) sp) (kb_starts s)
     \<and> kb_ends s' = AList.update ds (en @ map (\<lambda>p. nat (snd p)) sp) (kb_ends s)
     \<and> (\<forall>p \<in> set sp. 0 \<le> fst p \<and> 0 \<le> snd p)"
  using assms
proof (induction sp arbitrary: s st en)
  case Nil
  then show ?case by (simp add: update_triv)
next
  case (Cons p sp)
  from Cons.prems(3) Cons.prems(1) have f: "0 \<le> fst p"
    by (auto simp: array_append_def Let_def split: if_splits sum.splits)
  define s1 where "s1 = s\<lparr>kb_starts := AList.update ds (st @ [nat (fst p)]) (kb_starts s)\<rparr>"
  from Cons.prems have g: "0 \<le> snd p"
    by (auto simp: array_append_def Let_def split: if_splits sum.splits)
  define s2 where "s2 = s1\<lparr>kb_ends := AList.update ds (en @ [nat (snd p)]) (kb_ends s)\<rparr>"
  have rest: "append_spans ds sp s2 = (None, s')"
    using Cons.prems by (auto simp: array_append_def Let_def s1_def s2_def split: if_splits)
  have m1: "map_of (kb_starts s2) ds = Some (st @ [nat (fst p)])"
    and m2: "map_of (kb_ends s2) ds = Some (en @ [nat (snd p)])"
    by (simp_all add: s1_def s2_def map_of_update_same)
  from Cons.IH [OF m1 m2 rest] f g show ?case by (simp add: s1_def s2_def)
qed

lemma vocab_ok_layout:
  "vocab_ok s \<Longrightarrow> kb_vocab s' = kb_vocab s \<Longrightarrow> kb_count s' = kb_count s \<Longrightarrow> kb_ids s' = kb_ids s
     \<Longrightarrow> kb_contexts s' = kb_contexts s \<Longrightarrow> vocab_ok s'"
  by (simp add: vocab_ok_def)

lemma append_answers_step:
  assumes "vocab_ok s" and "ids_ok s" and "append_answers ds as s = (None, s')"
  shows "vocab_ok s' \<and> ids_ok s' \<and> vocab_ext s s' \<and> layout s' = layout s"
  using assms
proof (induction as arbitrary: s)
  case Nil
  then show ?case by (simp add: vocab_ext_refl)
next
  case (Cons a as)
  from Cons.prems(3) obtain arr where arr: "map_of (kb_answers s) ds = Some arr"
    by (cases "map_of (kb_answers s) ds") auto
  obtain r1 s1 where a1: "add_to_answer_vocab a s = (r1, s1)" by (cases "add_to_answer_vocab a s")
  note fr = add_to_answer_vocab_frame [OF a1]
  from Cons.prems(3) arr a1 obtain i where r1: "r1 = Inr i" by (cases r1) auto
  from Cons.prems(3) arr a1 r1 obtain an where an: "array_append (kb_answers s1) ds (int i) = Inr an"
    by (cases "array_append (kb_answers s1) ds (int i)") auto
  define s2 where "s2 = s1\<lparr>kb_answers := an\<rparr>"
  obtain r3 s3 where a3: "add_to_vocab a s2 = (r3, s3)" by (cases "add_to_vocab a s2")
  from Cons.prems(3) arr a1 r1 an a3 obtain j where r3: "r3 = Inr j"
    by (cases r3) (auto simp: s2_def)
  have rest: "append_answers ds as s3 = (None, s')"
    using Cons.prems(3) arr a1 r1 an a3 r3 by (simp add: s2_def)
  have ok2: "vocab_ok s2" using Cons.prems(1) fr by (simp add: vocab_ok_def s2_def)
  have io2: "ids_ok s2" using Cons.prems(2) fr by (simp add: ids_ok_def s2_def)
  have l2: "layout s2 = layout s"
    using a1 by (auto simp: add_to_answer_vocab_def Let_def layout_def s2_def split: if_splits option.splits)
  have e2: "vocab_ext s s2" using fr by (simp add: vocab_ext_def s2_def)
  note st = add_to_vocab_step [OF ok2 io2 a3 [unfolded r3]]
  from Cons.IH [OF st(1) st(2) rest] st(3) st(6) l2 e2 show ?case
    by (auto intro: vocab_ext_trans)
qed

lemma add_answers_step:
  assumes "vocab_ok s" and "ids_ok s" and "add_answers ds sp ans s = (None, s')"
  shows "vocab_ok s' \<and> ids_ok s' \<and> vocab_ext s s' \<and> layout s' = layout s"
  using assms append_answers_step [of s ds _ s']
  by (auto simp: add_answers_def vocab_ext_refl split: option.splits if_splits)

lemma add_offsets_step:
  assumes "map_of (kb_context_offsets s) ds = Some offs" and "map_of (kb_contexts s) ds = Some c"
    and "map_of (kb_span_offsets s) ds = Some soffs" and "map_of (kb_starts s) ds = Some st"
  shows "add_offsets ds s =
    (None, s\<lparr>kb_context_offsets := AList.update ds (offs @ [length c]) (kb_context_offsets s),
              kb_span_offsets := AList.update ds (soffs @ [length st]) (kb_span_offsets s)\<rparr>)"
  using assms by (simp add: add_offsets_def)

lemma add_layout:
  assumes ok: "vocab_ok s" and io: "ids_ok s" and a: "add ctx sp ans ds s = (Inr r, s')"
    and mc: "map_of (kb_contexts (add_base ds s)) ds = Some c"
    and mo: "map_of (kb_context_offsets (add_base ds s)) ds = Some offs"
    and ms: "map_of (kb_starts (add_base ds s)) ds = Some st"
    and me: "map_of (kb_ends (add_base ds s)) ds = Some en"
    and mso: "map_of (kb_span_offsets (add_base ds s)) ds = Some soffs"
  shows "\<exists>ids. vocab_ok s' \<and> ids_ok s' \<and> vocab_ext s s' \<and> decode (kb_vocab s') ids = Inr ctx
     \<and> (\<forall>p \<in> set sp. 0 \<le> fst p \<and> 0 \<le> snd p) \<and> r = int (length offs)
     \<and> layout s' =
         (AList.update ds (c @ ids) (kb_contexts (add_base ds s)),
          AList.update ds (offs @ [length c]) (kb_context_offsets (add_base ds s)),
          AList.update ds (st @ map (\<lambda>p. nat (fst p)) sp) (kb_starts (add_base ds s)),
          AList.update ds (en @ map (\<lambda>p. nat (snd p)) sp) (kb_ends (add_base ds s)),
          AList.update ds (soffs @ [length st]) (kb_span_offsets (add_base ds s)))"
proof -
  let ?b = "add_base ds s"
  have sp: "sp \<noteq> []" using a by (auto simp: add_def)
  define s0 where "s0 = s\<lparr>kb_ordered := False\<rparr>"
  define s1 where "s1 = (if map_of (kb_contexts s0) ds = None then new_partition ds s0 else s0)"
  have l1: "layout s1 = layout ?b" and v1: "kb_vocab s1 = kb_vocab s"
    and ok1: "vocab_ok s1" and io1: "ids_ok s1"
    using ok io
    by (auto simp: s1_def s0_def add_base_def new_partition_def layout_def vocab_ok_def ids_ok_def
        dest!: set_update_cases)
  have f1: "kb_contexts s1 = kb_contexts ?b" "kb_context_offsets s1 = kb_context_offsets ?b"
    "kb_starts s1 = kb_starts ?b" "kb_ends s1 = kb_ends ?b" "kb_span_offsets s1 = kb_span_offsets ?b"
    using l1 by (simp_all add: layout_def)
  define s2 where "s2 = s1\<lparr>kb_context_offsets := AList.update ds (offs @ [length c]) (kb_context_offsets s1),
              kb_span_offsets := AList.update ds (soffs @ [length st]) (kb_span_offsets s1)\<rparr>"
  have p2: "add_offsets ds s1 = (None, s2)"
    unfolding s2_def using mc mo ms mso by (intro add_offsets_step) (simp_all add: f1)
  have ok2: "vocab_ok s2" and io2: "ids_ok s2"
    using ok1 io1 by (simp_all add: s2_def vocab_ok_def ids_ok_def)
  have mc2: "map_of (kb_contexts s2) ds = Some c" using mc by (simp add: s2_def f1)
  obtain r3 s3 where p3: "extend_contexts ds ctx s2 = (r3, s3)" by (cases "extend_contexts ds ctx s2")
  obtain r4 s4 where p4: "append_spans ds sp s3 = (r4, s4)" by (cases "append_spans ds sp s3")
  obtain r5 s5 where p5: "add_answers ds sp ans s4 = (r5, s5)" by (cases "add_answers ds sp ans s4")
  from a sp p2 p3 p4 p5
  have r3: "r3 = None" and r4: "r4 = None" and r5: "r5 = None"
    and s': "s' = s5\<lparr>kb_max_context_length := max (kb_max_context_length s5) (length ctx),
                    kb_max_span_length := max (kb_max_span_length s5) (length sp)\<rparr>"
    and r: "r = int (num_contexts ds s') - 1"
    by (auto simp: add_def Let_def s0_def [symmetric] s1_def [symmetric] split: option.splits)
  from extend_contexts_step [OF ok2 io2 mc2 p3 [unfolded r3]] obtain ids where
    ok3: "vocab_ok s3" and io3: "ids_ok s3" and e3: "vocab_ext s2 s3"
    and dec3: "decode (kb_vocab s3) ids = Inr ctx"
    and l3: "layout s3 = (AList.update ds (c @ ids) (kb_contexts s2), kb_context_offsets s2,
            kb_starts s2, kb_ends s2, kb_span_offsets s2)"
    by blast
  have ms3: "map_of (kb_starts s3) ds = Some st" and me3: "map_of (kb_ends s3) ds = Some en"
    using l3 ms me by (simp_all add: layout_def s2_def f1)
  note sp4 = append_spans_step [OF ms3 me3 p4 [unfolded r4]]
  note fr4 = append_spans_frame [OF p4]
  have ok4: "vocab_ok s4" and io4: "ids_ok s4" and e4: "vocab_ext s3 s4"
    using ok3 io3 fr4 by (simp_all add: vocab_ok_def ids_ok_def vocab_ext_def)
  have l4: "layout s4 = (AList.update ds (c @ ids) (kb_contexts s2), kb_context_offsets s2,
            AList.update ds (st @ map (\<lambda>p. nat (fst p)) sp) (kb_starts s2),
            AList.update ds (en @ map (\<lambda>p. nat (snd p)) sp) (kb_ends s2), kb_span_offsets s2)"
    using l3 sp4 fr4 by (simp add: layout_def)
  from add_answers_step [OF ok4 io4 p5 [unfolded r5]]
  have ok5: "vocab_ok s5" and io5: "ids_ok s5" and e5: "vocab_ext s4 s5" and l5: "layout s5 = layout s4"
    by simp_all
  have ok': "vocab_ok s'" and io': "ids_ok s'" and l': "layout s' = layout s5"
    and v': "kb_vocab s' = kb_vocab s5"
    using ok5 io5 by (simp_all add: s' vocab_ok_def ids_ok_def layout_def)
  have e: "vocab_ext s s'"
    using v1 e3 e4 e5 v' by (auto simp: vocab_ext_def s2_def)
  have "vocab_ext s3 s'" using e4 e5 v' by (auto simp: vocab_ext_def)
  moreover from decode_Inr [OF dec3] have "\<forall>x \<in> set ids. x < length (kb_vocab s3)"
    and "ctx = map (\<lambda>x. kb_vocab s3 ! x) ids" by simp_all
  ultimately have dec': "decode (kb_vocab s') ids = Inr ctx"
    by (subst decode_ok) (auto simp: vocab_ext_def)
  have lay: "layout s' =
         (AList.update ds (c @ ids) (kb_contexts ?b),
          AList.update ds (offs @ [length c]) (kb_context_offsets ?b),
          AList.update ds (st @ map (\<lambda>p. nat (fst p)) sp) (kb_starts ?b),
          AList.update ds (en @ map (\<lambda>p. nat (snd p)) sp) (kb_ends ?b),
          AList.update ds (soffs @ [length st]) (kb_span_offsets ?b))"
    using l' l5 l4 by (simp add: s2_def f1)
  have "r = int (length offs)"
    using r lay by (simp add: num_contexts_def layout_def map_of_update_same)
  with ok' io' e dec' sp4 lay show ?thesis by blast
qed

lemma store_inv_init: "store_inv kb_init"
  by (simp add: store_inv_def vocab_ok_def ids_ok_def partition_ok_def kb_init_def)

lemma round_trip_init: "round_trip kb_init ds []"
  by (simp add: round_trip_def num_contexts_def kb_init_def)

lemma decode_ext:
  assumes "vocab_ext s s'" and "decode (kb_vocab s) xs = Inr ws"
  shows "decode (kb_vocab s') xs = Inr ws"
proof -
  from decode_Inr [OF assms(2)] have b: "\<forall>x \<in> set xs. x < length (kb_vocab s)"
    and ws: "ws = map (\<lambda>x. kb_vocab s ! x) xs" by simp_all
  have "decode (kb_vocab s') xs = Inr (map (\<lambda>x. kb_vocab s' ! x) xs)"
    using b assms(1) by (intro decode_ok) (auto simp: vocab_ext_def)
  also have "map (\<lambda>x. kb_vocab s' ! x) xs = ws"
    using b assms(1) by (auto simp: ws vocab_ext_def)
  finally show ?thesis .
qed

lemma add_base_other:
  "ds' \<noteq> ds \<Longrightarrow> map_of (kb_contexts (add_base ds s)) ds' = map_of (kb_contexts s) ds'
     \<and> map_of (kb_context_offsets (add_base ds s)) ds' = map_of (kb_context_offsets s) ds'
     \<and> map_of (kb_starts (add_base ds s)) ds' = map_of (kb_starts s) ds'
     \<and> map_of (kb_ends (add_base ds s)) ds' = map_of (kb_ends s) ds'
     \<and> map_of (kb_span_offsets (add_base ds s)) ds' = map_of (kb_span_offsets s) ds'"
  by (simp add: add_base_def new_partition_def map_of_update_other)

lemma add_base_cases:
  assumes "partition_ok s ds"
  obtains c offs st en soffs where
    "map_of (kb_contexts (add_base ds s)) ds = Some c"
    "map_of (kb_context_offsets (add_base ds s)) ds = Some offs"
    "map_of (kb_starts (add_base ds s)) ds = Some st"
    "map_of (kb_ends (add_base ds s)) ds = Some en"
    "map_of (kb_span_offsets (add_base ds s)) ds = Some soffs"
    "\<forall>off \<in> set offs. off \<le> length c" "length en = length st"
    "\<forall>off \<in> set soffs. off \<le> length st" "length soffs = length offs"
    "num_contexts ds s = length offs"
    "\<forall>i < length offs. context_at (int i) ds s = Inr (seg offs c i)
        \<and> spans (int i) ds s = Inr (seg soffs st i, seg soffs en i)"
proof (cases "map_of (kb_contexts s) ds")
  case None
  with assms have "map_of (kb_context_offsets s) ds = None" by (simp add: partition_ok_def)
  then have "num_contexts ds s = length ([] :: nat list)" by (simp add: num_contexts_def)
  with None show ?thesis
    by (intro that [of "[]" "[]" "[]" "[]" "[]"])
       (simp_all add: add_base_def new_partition_def map_of_update_same)
next
  case (Some c)
  with assms obtain offs st en soffs where
    m: "map_of (kb_context_offsets s) ds = Some offs" "map_of (kb_starts s) ds = Some st"
       "map_of (kb_ends s) ds = Some en" "map_of (kb_span_offsets s) ds = Some soffs"
    and b: "\<forall>off \<in> set offs. off \<le> length c" "length en = length st"
       "\<forall>off \<in> set soffs. off \<le> length st" "length soffs = length offs"
    unfolding partition_ok_def by blast
  have n: "num_contexts ds s = length offs" using m by (simp add: num_contexts_def)
  have r: "\<forall>i < length offs. context_at (int i) ds s = Inr (seg offs c i)
        \<and> spans (int i) ds s = Inr (seg soffs st i, seg soffs en i)"
    using context_at_nat [OF m(1) Some] spans_nat [OF m(4) m(2) m(3) b(2)] b(4) by simp
  from Some m b n r show ?thesis
    by (intro that [of c offs st en soffs]) (simp_all add: add_base_def)
qed

lemma int_nat_map: "\<forall>p \<in> set sp. 0 \<le> f p \<Longrightarrow> map int (map (\<lambda>p. nat (f p)) sp) = map f sp"
  by (induction sp) auto

lemma add_observed:
  assumes inv: "store_inv s" and rt: "round_trip s ds items"
    and a: "add ctx sp ans ds s = (Inr r, s')"
  shows "store_inv s' \<and> round_trip s' ds (items @ [(ctx, sp)]) \<and> r = int (length items)"
proof -
  have ok: "vocab_ok s" and io: "ids_ok s" and po: "\<And>d. partition_ok s d"
    using inv by (simp_all add: store_inv_def)
  from add_base_cases [OF po [of ds]] obtain c offs st en soffs where
    mc: "map_of (kb_contexts (add_base ds s)) ds = Some c"
    and mo: "map_of (kb_context_offsets (add_base ds s)) ds = Some offs"
    and ms: "map_of (kb_starts (add_base ds s)) ds = Some st"
    and me: "map_of (kb_ends (add_base ds s)) ds = Some en"
    and mso: "map_of (kb_span_offsets (add_base ds s)) ds = Some soffs"
    and b1: "\<forall>off \<in> set offs. off \<le> length c" and b2: "length en = length st"
    and b3: "\<forall>off \<in> set soffs. off \<le> length st" and b4: "length soffs = length offs"
    and n: "num_contexts ds s = length offs"
    and old: "\<forall>i < length offs. context_at (int i) ds s = Inr (seg offs c i)
        \<and> spans (int i) ds s = Inr (seg soffs st i, seg soffs en i)"
    by blast
  from add_layout [OF ok io a mc mo ms me mso] obtain ids where
    ok': "vocab_ok s'" and io': "ids_ok s'" and ext: "vocab_ext s s'"
    and dec: "decode (kb_vocab s') ids = Inr ctx"
    and nn: "\<forall>p \<in> set sp. 0 \<le> fst p \<and> 0 \<le> snd p" and r: "r = int (length offs)"
    and lay: "layout s' =
         (AList.update ds (c @ ids) (kb_contexts (add_base ds s)),
          AList.update ds (offs @ [length c]) (kb_context_offsets (add_base ds s)),
          AList.update ds (st @ map (\<lambda>p. nat (fst p)) sp) (kb_starts (add_base ds s)),
          AList.update ds (en @ map (\<lambda>p. nat (snd p)) sp) (kb_ends (add_base ds s)),
          AList.update ds (soffs @ [length st]) (kb_span_offsets (add_base ds s)))"
    by blast
  let ?st' = "st @ map (\<lambda>p. nat (fst p)) sp" and ?en' = "en @ map (\<lambda>p. nat (snd p)) sp"
  have m': "map_of (kb_contexts s') ds = Some (c @ ids)"
    "map_of (kb_context_offsets s') ds = Some (offs @ [length c])"
    "map_of (kb_starts s') ds = Some ?st'" "map_of (kb_ends s') ds = Some ?en'"
    "map_of (kb_span_offsets s') ds = Some (soffs @ [length st])"
    using lay by (simp_all add: layout_def map_of_update_same)
  have other: "map_of (kb_contexts s') d = map_of (kb_contexts s) d
     \<and> map_of (kb_context_offsets s') d = map_of (kb_context_offsets s) d
     \<and> map_of (kb_starts s') d = map_of (kb_starts s) d
     \<and> map_of (kb_ends s') d = map_of (kb_ends s) d
     \<and> map_of (kb_span_offsets s') d = map_of (kb_span_offsets s) d" if "d \<noteq> ds" for d
    using lay add_base_other [OF that, of s] that by (simp add: layout_def map_of_update_other)
  have po': "partition_ok s' d" for d
  proof (cases "d = ds")
    case True
    show ?thesis using m' b1 b2 b3 b4 by (auto simp: partition_ok_def True)
  next
    case False
    from other [OF False] po [of d] show ?thesis by (simp add: partition_ok_def)
  qed
  have inv': "store_inv s'" using ok' io' po' by (simp add: store_inv_def)
  have len: "length items = length offs" using rt n by (simp add: round_trip_def)
  have n': "num_contexts ds s' = length (items @ [(ctx, sp)])"
    using m'(2) len by (simp add: num_contexts_def)
  have l': "length ?en' = length ?st'" using b2 by simp
  have new_c: "context_at (int i) ds s' = Inr (seg (offs @ [length c]) (c @ ids) i)"
    and new_s: "spans (int i) ds s' = Inr (seg (soffs @ [length st]) ?st' i, seg (soffs @ [length st]) ?en' i)"
    if "i < Suc (length offs)" for i
    using context_at_nat [OF m'(2) m'(1), of i] spans_nat [OF m'(5) m'(3) m'(4) l', of i] that b4
    by simp_all
  have item: "\<exists>ids ss es.
           context_at (int i) ds s' = Inr ids \<and> decode (kb_vocab s') ids = Inr (fst ((items @ [(ctx, sp)]) ! i))
           \<and> spans (int i) ds s' = Inr (ss, es)
           \<and> map int ss = map fst (snd ((items @ [(ctx, sp)]) ! i))
           \<and> map int es = map snd (snd ((items @ [(ctx, sp)]) ! i))"
    if i: "i < length (items @ [(ctx, sp)])" for i
  proof (cases "i < length offs")
    case True
    with rt len obtain xs ss es where
      o: "context_at (int i) ds s = Inr xs" "decode (kb_vocab s) xs = Inr (fst (items ! i))"
        "spans (int i) ds s = Inr (ss, es)"
        "map int ss = map fst (snd (items ! i))" "map int es = map snd (snd (items ! i))"
      unfolding round_trip_def by force
    from old True o have xs: "xs = seg offs c i" and ss: "ss = seg soffs st i" and es: "es = seg soffs en i"
      by simp_all
    have c': "context_at (int i) ds s' = Inr xs"
      using new_c [of i] True seg_append_old [OF True b1, of ids] by (simp add: xs)
    have "seg (soffs @ [length st]) ?st' i = ss"
      using seg_append_old [of i soffs st] True b3 b4 by (simp add: ss)
    moreover have "seg (soffs @ [length st]) ?en' i = es"
      using seg_append_old [of i soffs en] True b3 b4 b2 by (simp add: es)
    ultimately have s': "spans (int i) ds s' = Inr (ss, es)"
      using new_s [of i] True by simp
    from c' s' o decode_ext [OF ext o(2)] True len show ?thesis
      by (simp add: nth_append)
  next
    case False
    with i len have ii: "i = length offs" by simp
    have c': "context_at (int i) ds s' = Inr ids"
      using new_c [of i] seg_append_new [of offs c ids] by (simp add: ii)
    have "seg (soffs @ [length st]) ?st' i = map (\<lambda>p. nat (fst p)) sp"
      using seg_append_new [of soffs st] b4 by (simp add: ii)
    moreover have "seg (soffs @ [length st]) ?en' i = map (\<lambda>p. nat (snd p)) sp"
      using seg_append_new [of soffs en] b4 b2 by (simp add: ii)
    ultimately have s': "spans (int i) ds s' = Inr (map (\<lambda>p. nat (fst p)) sp, map (\<lambda>p. nat (snd p)) sp)"
      using new_s [of i] by (simp add: ii)
    have "map int (map (\<lambda>p. nat (fst p)) sp) = map fst sp" "map int (map (\<lambda>p. nat (snd p)) sp) = map snd sp"
      using nn by (simp_all add: int_nat_map)
    with c' s' dec ii len show ?thesis by (simp add: nth_append)
  qed
  have "round_trip s' ds (items @ [(ctx, sp)])"
    unfolding round_trip_def
  proof (intro conjI allI impI)
    show "num_contexts ds s' = length (items @ [(ctx, sp)])" by (rule n')
  next
    fix i assume "i < length (items @ [(ctx, sp)])"
    then show "\<exists>ids ss es.
           context_at (int i) ds s' = Inr ids \<and> decode (kb_vocab s') ids = Inr (fst ((items @ [(ctx, sp)]) ! i))
           \<and> spans (int i) ds s' = Inr (ss, es)
           \<and> map int ss = map fst (snd ((items @ [(ctx, sp)]) ! i))
           \<and> map int es = map snd (snd ((items @ [(ctx, sp)]) ! i))"
      by (rule item)
  qed
  with inv' r len show ?thesis by simp
qed

lemma length_add_trace: "length (add_trace s calls) = length calls"
  by (induction calls arbitrary: s) (simp_all add: Let_def)

lemma final_store_Cons:
  "final_store s (c # cs) =
     final_store (snd (add (call_context c) (call_spans c) (call_answers c) (call_dataset c) s)) cs"
  by (simp add: final_store_def Let_def)

lemma add_trace_round_trip:
  assumes "store_inv s" and "round_trip s ds items"
    and "\<forall>t \<in> set (add_trace s calls). \<exists>r. fst t = Inr r"
    and "\<forall>c \<in> set calls. call_dataset c = ds"
  shows "store_inv (final_store s calls)
     \<and> round_trip (final_store s calls) ds (items @ map (\<lambda>c. (call_context c, call_spans c)) calls)
     \<and> (\<forall>j < length calls.
           fst (add_trace s calls ! j) = Inr (int (length items + j))
           \<and> num_contexts ds (snd (add_trace s calls ! j)) = Suc (length items + j))"
  using assms
proof (induction calls arbitrary: s items)
  case Nil
  then show ?case by (simp add: final_store_def)
next
  case (Cons c cs)
  let ?r = "add (call_context c) (call_spans c) (call_answers c) (call_dataset c) s"
  from Cons.prems(3) obtain k where k: "fst ?r = Inr k" by (auto simp: Let_def)
  obtain s1 where s1: "?r = (Inr k, s1)" using k by (cases ?r) auto
  have ds: "call_dataset c = ds" using Cons.prems(4) by simp
  from add_observed [OF Cons.prems(1,2) s1 [unfolded ds]]
  have inv1: "store_inv s1" and rt1: "round_trip s1 ds (items @ [(call_context c, call_spans c)])"
    and kk: "k = int (length items)" by simp_all
  have n1: "num_contexts ds s1 = Suc (length items)" using rt1 by (simp add: round_trip_def)
  have tr: "add_trace s (c # cs) = (Inr k, s1) # add_trace s1 cs" using s1 by (simp add: Let_def)
  have p3: "\<forall>t \<in> set (add_trace s1 cs). \<exists>r. fst t = Inr r" using Cons.prems(3) tr by simp
  have p4: "\<forall>c \<in> set cs. call_dataset c = ds" using Cons.prems(4) by simp
  note ih = Cons.IH [OF inv1 rt1 p3 p4]
  have fs: "final_store s (c # cs) = final_store s1 cs" using s1 by (simp add: final_store_Cons)
  have steps: "fst (add_trace s (c # cs) ! j) = Inr (int (length items + j))
           \<and> num_contexts ds (snd (add_trace s (c # cs) ! j)) = Suc (length items + j)"
    if "j < length (c # cs)" for j
  proof (cases j)
    case 0
    then show ?thesis using tr kk n1 by simp
  next
    case (Suc j')
    with that have "j' < length cs" by simp
    with ih Suc tr show ?thesis by simp
  qed
  from ih fs steps show ?case by simp
qed

text \<open>
  C5.  On a fresh store, for every sequence of calls of \<open>add\<close> into one partition
  that all return: call \<open>j\<close> returns \<open>num_contexts - 1\<close> of the store it leaves,
  which is \<open>j\<close>; afterwards \<open>num_contexts\<close> is the number of calls; and for every
  \<open>i\<close> below it \<open>context(i)\<close> decodes through the vocabulary to the tokens of call
  \<open>i\<close>, and \<open>spans(i)\<close> are the starts and ends of the spans of call \<open>i\<close>.
\<close>

theorem add_round_trip:
  assumes "\<forall>t \<in> set (add_trace kb_init calls). \<exists>r. fst t = Inr r"
    and "\<forall>c \<in> set calls. call_dataset c = ds"
  shows "(\<forall>j < length calls.
            fst (add_trace kb_init calls ! j)
              = Inr (int (num_contexts ds (snd (add_trace kb_init calls ! j))) - 1)
            \<and> fst (add_trace kb_init calls ! j) = Inr (int j))
     \<and> num_contexts ds (final_store kb_init calls) = length calls
     \<and> (\<forall>i < length calls. \<exists>ids ss es.
            context_at (int i) ds (final_store kb_init calls) = Inr ids
            \<and> decode (kb_vocab (final_store kb_init calls)) ids = Inr (call_context (calls ! i))
            \<and> spans (int i) ds (final_store kb_init calls) = Inr (ss, es)
            \<and> map int ss = map fst (call_spans (calls ! i))
            \<and> map int es = map snd (call_spans (calls ! i)))"
proof -
  note t = add_trace_round_trip [OF store_inv_init round_trip_init assms, simplified]
  from t have rt: "round_trip (final_store kb_init calls) ds (map (\<lambda>c. (call_context c, call_spans c)) calls)"
    by simp
  from t have st: "\<forall>j < length calls. fst (add_trace kb_init calls ! j) = Inr (int j)
           \<and> num_contexts ds (snd (add_trace kb_init calls ! j)) = Suc j" by simp
  have 1: "\<forall>j < length calls.
            fst (add_trace kb_init calls ! j)
              = Inr (int (num_contexts ds (snd (add_trace kb_init calls ! j))) - 1)
            \<and> fst (add_trace kb_init calls ! j) = Inr (int j)"
    using st by simp
  have 2: "num_contexts ds (final_store kb_init calls) = length calls"
    using rt by (simp add: round_trip_def)
  have 3: "\<forall>i < length calls. \<exists>ids ss es.
            context_at (int i) ds (final_store kb_init calls) = Inr ids
            \<and> decode (kb_vocab (final_store kb_init calls)) ids = Inr (call_context (calls ! i))
            \<and> spans (int i) ds (final_store kb_init calls) = Inr (ss, es)
            \<and> map int ss = map fst (call_spans (calls ! i))
            \<and> map int es = map snd (call_spans (calls ! i))"
  proof (intro allI impI)
    fix i assume i: "i < length calls"
    with rt show "\<exists>ids ss es.
            context_at (int i) ds (final_store kb_init calls) = Inr ids
            \<and> decode (kb_vocab (final_store kb_init calls)) ids = Inr (call_context (calls ! i))
            \<and> spans (int i) ds (final_store kb_init calls) = Inr (ss, es)
            \<and> map int ss = map fst (call_spans (calls ! i))
            \<and> map int es = map snd (call_spans (calls ! i))"
      unfolding round_trip_def by (auto dest!: spec [of _ i])
  qed
  from 1 2 3 show ?thesis by (intro conjI)
qed

theorem add_round_trip_witness:
  "map fst (add_trace kb_init two_calls) = [Inr 0, Inr 1]
   \<and> map call_dataset two_calls = [''train'', ''train'']
   \<and> fst (add_trace kb_init two_calls ! 1) = Inr (int (num_contexts ''train'' (snd (add_trace kb_init two_calls ! 1))) - 1)
   \<and> num_contexts ''train'' (final_store kb_init two_calls) = 2
   \<and> (\<exists>ids ss es.
          context_at 1 ''train'' (final_store kb_init two_calls) = Inr ids
          \<and> decode (kb_vocab (final_store kb_init two_calls)) ids = Inr [''d'', ''a'']
          \<and> spans 1 ''train'' (final_store kb_init two_calls) = Inr (ss, es)
          \<and> map int ss = [0, 1] \<and> map int es = [1, 2])"
proof -
  have t: "map fst (add_trace kb_init two_calls) = [Inr 0, Inr 1]"
    unfolding two_calls_def by code_simp
  have d: "map call_dataset two_calls = [''train'', ''train'']"
    unfolding two_calls_def by simp
  have h1: "\<forall>t \<in> set (add_trace kb_init two_calls). \<exists>r. fst t = Inr r"
  proof
    fix x assume "x \<in> set (add_trace kb_init two_calls)"
    then have "fst x \<in> set (map fst (add_trace kb_init two_calls))" by simp
    then show "\<exists>r. fst x = Inr r" unfolding t by auto
  qed
  have h2: "\<forall>c \<in> set two_calls. call_dataset c = ''train''"
  proof
    fix c assume "c \<in> set two_calls"
    then have "call_dataset c \<in> set (map call_dataset two_calls)" by simp
    then show "call_dataset c = ''train''" unfolding d by simp
  qed
  have l: "length two_calls = 2" by (simp add: two_calls_def)
  have c1: "call_context (two_calls ! 1) = [''d'', ''a'']" "call_spans (two_calls ! 1) = [(0, 1), (1, 2)]"
    by (simp_all add: two_calls_def)
  note rt = add_round_trip [OF h1 h2]
  have a: "fst (add_trace kb_init two_calls ! 1)
      = Inr (int (num_contexts ''train'' (snd (add_trace kb_init two_calls ! 1))) - 1)"
    using rt [THEN conjunct1, rule_format, of 1] l by simp
  have b: "num_contexts ''train'' (final_store kb_init two_calls) = 2"
    using rt [THEN conjunct2, THEN conjunct1] l by simp
  have c: "\<exists>ids ss es.
          context_at 1 ''train'' (final_store kb_init two_calls) = Inr ids
          \<and> decode (kb_vocab (final_store kb_init two_calls)) ids = Inr [''d'', ''a'']
          \<and> spans 1 ''train'' (final_store kb_init two_calls) = Inr (ss, es)
          \<and> map int ss = [0, 1] \<and> map int es = [1, 2]"
    using rt [THEN conjunct2, THEN conjunct2, rule_format, of 1] l c1 by simp
  from t d a b c show ?thesis by (intro conjI)
qed

section \<open>The entity index\<close>

lemma keys_update_present: "map_of al k \<noteq> None \<Longrightarrow> map fst (AList.update k v al) = map fst al"
  by (simp add: update_keys map_of_eq_None_iff)

lemma length_update_absent: "map_of al k = None \<Longrightarrow> length (AList.update k v al) = Suc (length al)"
  by (induction al) (auto split: if_splits)

lemma append_empty_result:
  assumes "distinct dss"
    and "\<forall>d \<in> set dss. map_of (fkb_entity_ctxt f) d \<noteq> None \<and> map_of (fkb_entity_ctxt_span f) d \<noteq> None"
  shows "\<exists>f'. append_empty dss f = (None, f')
     \<and> (\<forall>d. map_of (fkb_entity_ctxt f') d =
            (if d \<in> set dss then map_option (\<lambda>l. l @ [[]]) (map_of (fkb_entity_ctxt f) d)
             else map_of (fkb_entity_ctxt f) d))
     \<and> (\<forall>d. map_of (fkb_entity_ctxt_span f') d =
            (if d \<in> set dss then map_option (\<lambda>l. l @ [[]]) (map_of (fkb_entity_ctxt_span f) d)
             else map_of (fkb_entity_ctxt_span f) d))
     \<and> map fst (fkb_entity_ctxt f') = map fst (fkb_entity_ctxt f)
     \<and> fkb_entity_vocab f' = fkb_entity_vocab f \<and> fkb_entity_ids f' = fkb_entity_ids f
     \<and> fkb_facts f' = fkb_facts f \<and> fkb_kb f' = fkb_kb f"
  using assms
proof (induction dss arbitrary: f)
  case Nil
  then show ?case by simp
next
  case (Cons d dss)
  from Cons.prems obtain l1 l2 where l1: "map_of (fkb_entity_ctxt f) d = Some l1"
    and l2: "map_of (fkb_entity_ctxt_span f) d = Some l2" by auto
  define f2 where "f2 = f\<lparr>fkb_entity_ctxt := AList.update d (l1 @ [[]]) (fkb_entity_ctxt f),
      fkb_entity_ctxt_span := AList.update d (l2 @ [[]]) (fkb_entity_ctxt_span f)\<rparr>"
  have step: "append_empty (d # dss) f = append_empty dss f2"
    using l1 l2 by (simp add: dict_append_def f2_def Let_def)
  have pre: "\<forall>d' \<in> set dss. map_of (fkb_entity_ctxt f2) d' \<noteq> None \<and> map_of (fkb_entity_ctxt_span f2) d' \<noteq> None"
    using Cons.prems by (auto simp: f2_def update_conv')
  have dd: "distinct dss" and nd: "d \<notin> set dss" using Cons.prems(1) by simp_all
  from Cons.IH [OF dd pre] obtain f' where
    r: "append_empty dss f2 = (None, f')"
    and c: "\<forall>x. map_of (fkb_entity_ctxt f') x =
            (if x \<in> set dss then map_option (\<lambda>l. l @ [[]]) (map_of (fkb_entity_ctxt f2) x)
             else map_of (fkb_entity_ctxt f2) x)"
    and s: "\<forall>x. map_of (fkb_entity_ctxt_span f') x =
            (if x \<in> set dss then map_option (\<lambda>l. l @ [[]]) (map_of (fkb_entity_ctxt_span f2) x)
             else map_of (fkb_entity_ctxt_span f2) x)"
    and k: "map fst (fkb_entity_ctxt f') = map fst (fkb_entity_ctxt f2)"
    and o: "fkb_entity_vocab f' = fkb_entity_vocab f2" "fkb_entity_ids f' = fkb_entity_ids f2"
       "fkb_facts f' = fkb_facts f2" "fkb_kb f' = fkb_kb f2"
    by blast
  have k2: "map fst (fkb_entity_ctxt f2) = map fst (fkb_entity_ctxt f)"
    using l1 by (simp add: f2_def keys_update_present)
  have c': "\<forall>x. map_of (fkb_entity_ctxt f') x =
            (if x \<in> set (d # dss) then map_option (\<lambda>l. l @ [[]]) (map_of (fkb_entity_ctxt f) x)
             else map_of (fkb_entity_ctxt f) x)"
    using c nd l1 by (auto simp: f2_def update_conv')
  have s': "\<forall>x. map_of (fkb_entity_ctxt_span f') x =
            (if x \<in> set (d # dss) then map_option (\<lambda>l. l @ [[]]) (map_of (fkb_entity_ctxt_span f) x)
             else map_of (fkb_entity_ctxt_span f) x)"
    using s nd l2 by (auto simp: f2_def update_conv')
  from step r c' s' k k2 o show ?case by (simp add: f2_def)
qed

lemma new_entity_inv:
  assumes "index_inv f" and "map_of (fkb_entity_ids f) e = None"
  shows "\<exists>f'. new_entity e f = (None, f') \<and> index_inv f'
     \<and> map_of (fkb_entity_ids f') e \<noteq> None
     \<and> (\<forall>ds. map_of (fkb_facts f') ds = None \<longleftrightarrow> map_of (fkb_facts f) ds = None)
     \<and> fkb_kb f' = fkb_kb f"
proof -
  define f1 where "f1 = f\<lparr>fkb_entity_ids := AList.update e (length (fkb_entity_vocab f)) (fkb_entity_ids f),
                 fkb_entity_vocab := fkb_entity_vocab f @ [e]\<rparr>"
  have d: "distinct (map fst (fkb_entity_ctxt f1))" using assms(1) by (simp add: index_inv_def f1_def)
  have p: "\<forall>d \<in> set (map fst (fkb_entity_ctxt f1)).
      map_of (fkb_entity_ctxt f1) d \<noteq> None \<and> map_of (fkb_entity_ctxt_span f1) d \<noteq> None"
    using assms(1) by (auto simp: index_inv_def f1_def map_of_eq_None_iff)
  from append_empty_result [OF d p] obtain f' where
    r: "append_empty (map fst (fkb_entity_ctxt f1)) f1 = (None, f')"
    and c: "\<forall>x. map_of (fkb_entity_ctxt f') x =
            (if x \<in> set (map fst (fkb_entity_ctxt f1)) then map_option (\<lambda>l. l @ [[]]) (map_of (fkb_entity_ctxt f1) x)
             else map_of (fkb_entity_ctxt f1) x)"
    and s: "\<forall>x. map_of (fkb_entity_ctxt_span f') x =
            (if x \<in> set (map fst (fkb_entity_ctxt f1)) then map_option (\<lambda>l. l @ [[]]) (map_of (fkb_entity_ctxt_span f1) x)
             else map_of (fkb_entity_ctxt_span f1) x)"
    and k: "map fst (fkb_entity_ctxt f') = map fst (fkb_entity_ctxt f1)"
    and o: "fkb_entity_vocab f' = fkb_entity_vocab f1" "fkb_entity_ids f' = fkb_entity_ids f1"
       "fkb_facts f' = fkb_facts f1" "fkb_kb f' = fkb_kb f1"
    by blast
  have f1c: "fkb_entity_ctxt f1 = fkb_entity_ctxt f" and f1s: "fkb_entity_ctxt_span f1 = fkb_entity_ctxt_span f"
    by (simp_all add: f1_def)
  have mem: "x \<in> set (map fst (fkb_entity_ctxt f1)) \<longleftrightarrow> map_of (fkb_entity_ctxt f) x \<noteq> None" for x
    by (simp add: f1c map_of_eq_None_iff)
  have same: "map_of (fkb_entity_ctxt_span f) x = None \<longleftrightarrow> map_of (fkb_entity_ctxt f) x = None" for x
    using assms(1) by (simp add: index_inv_def)
  have c1: "map_of (fkb_entity_ctxt f') x = map_option (\<lambda>l. l @ [[]]) (map_of (fkb_entity_ctxt f) x)" for x
  proof (cases "map_of (fkb_entity_ctxt f) x")
    case None
    with c [rule_format, of x] mem [of x] show ?thesis by (simp add: f1c)
  next
    case (Some l)
    with c [rule_format, of x] mem [of x] show ?thesis by (simp add: f1c)
  qed
  have s1: "map_of (fkb_entity_ctxt_span f') x = map_option (\<lambda>l. l @ [[]]) (map_of (fkb_entity_ctxt_span f) x)" for x
  proof (cases "map_of (fkb_entity_ctxt f) x")
    case None
    with s [rule_format, of x] mem [of x] same [of x] show ?thesis by (simp add: f1s)
  next
    case (Some l)
    with s [rule_format, of x] mem [of x] show ?thesis by (simp add: f1s)
  qed
  have inv': "index_inv f'"
    unfolding index_inv_def
  proof (intro conjI allI impI)
    show "length (fkb_entity_ids f') = length (fkb_entity_vocab f')"
      using assms by (simp add: o f1_def length_update_absent index_inv_def)
    show "j < length (fkb_entity_vocab f')" if "map_of (fkb_entity_ids f') e' = Some j" for e' j
      using that assms(1) by (auto simp: o f1_def update_conv' index_inv_def less_Suc_eq split: if_splits)
    show "distinct (map fst (fkb_entity_ctxt f'))" using d k by simp
    show "(map_of (fkb_entity_ctxt_span f') ds = None) = (map_of (fkb_entity_ctxt f') ds = None)" for ds
      using assms(1) by (simp add: c1 s1 index_inv_def)
    show "(map_of (fkb_facts f') ds = None) = (map_of (fkb_entity_ctxt f') ds = None)" for ds
      using assms(1) by (simp add: c1 o f1_def index_inv_def)
    show "length l = length (fkb_entity_vocab f')" if "map_of (fkb_entity_ctxt f') ds = Some l" for ds l
      using that assms(1) by (auto simp: c1 o f1_def index_inv_def)
    show "length l = length (fkb_entity_vocab f')" if "map_of (fkb_entity_ctxt_span f') ds = Some l" for ds l
      using that assms(1) by (auto simp: s1 o f1_def index_inv_def)
  qed
  have "new_entity e f = (None, f')" using r by (simp add: new_entity_def f1_def Let_def)
  moreover have "map_of (fkb_entity_ids f') e \<noteq> None" by (simp add: o f1_def update_conv')
  moreover have "\<forall>ds. map_of (fkb_facts f') ds = None \<longleftrightarrow> map_of (fkb_facts f) ds = None"
    by (simp add: o f1_def)
  moreover have "fkb_kb f' = fkb_kb f" by (simp add: o f1_def)
  ultimately show ?thesis using inv' by blast
qed

lemma index_inv_touch:
  assumes inv: "index_inv f"
    and c: "map_of (fkb_entity_ctxt f) ds = Some l1" and s: "map_of (fkb_entity_ctxt_span f) ds = Some l2"
    and fs: "map_of (fkb_facts f) ds = Some l3"
    and n1: "length l1' = length l1" and n2: "length l2' = length l2"
  shows "index_inv (f\<lparr>fkb_entity_ctxt := AList.update ds l1' (fkb_entity_ctxt f),
                      fkb_entity_ctxt_span := AList.update ds l2' (fkb_entity_ctxt_span f),
                      fkb_facts := AList.update ds l3' (fkb_facts f)\<rparr>)"
  using assms
  by (auto simp: index_inv_def update_conv' distinct_update)

lemma index_entities_inv:
  assumes "index_inv f" and "map_of (fkb_facts f) ds \<noteq> None"
  shows "\<exists>f'. index_entities ds fid ps f = (None, f') \<and> index_inv f'
     \<and> map_of (fkb_facts f') ds \<noteq> None \<and> fkb_kb f' = fkb_kb f"
  using assms
proof (induction ps arbitrary: f)
  case Nil
  then show ?case by simp
next
  case (Cons p ps)
  obtain e span where p: "p = (e, span)" by (cases p)
  have "\<exists>f1. (if map_of (fkb_entity_ids f) e = None then new_entity e f else (None, f)) = (None, f1)
      \<and> index_inv f1 \<and> map_of (fkb_entity_ids f1) e \<noteq> None \<and> map_of (fkb_facts f1) ds \<noteq> None
      \<and> fkb_kb f1 = fkb_kb f"
  proof (cases "map_of (fkb_entity_ids f) e")
    case None
    from new_entity_inv [OF Cons.prems(1) None] obtain f' where
      n: "new_entity e f = (None, f')" "index_inv f'" "map_of (fkb_entity_ids f') e \<noteq> None"
      "fkb_kb f' = fkb_kb f"
      and ks: "\<forall>ds. map_of (fkb_facts f') ds = None \<longleftrightarrow> map_of (fkb_facts f) ds = None"
      by blast
    from ks Cons.prems(2) have "map_of (fkb_facts f') ds \<noteq> None" by simp
    moreover have "(if map_of (fkb_entity_ids f) e = None then new_entity e f else (None, f)) = (None, f')"
      using None n(1) by simp
    ultimately show ?thesis using n by blast
  next
    case (Some j)
    with Cons.prems show ?thesis by simp
  qed
  then obtain f1 j where
    ne: "(if map_of (fkb_entity_ids f) e = None then new_entity e f else (None, f)) = (None, f1)"
    and inv1: "index_inv f1" and j: "map_of (fkb_entity_ids f1) e = Some j"
    and fs1: "map_of (fkb_facts f1) ds \<noteq> None" and kb1: "fkb_kb f1 = fkb_kb f"
    by auto
  from inv1 fs1 obtain l1 l2 l3 where
    l1: "map_of (fkb_entity_ctxt f1) ds = Some l1" and l2: "map_of (fkb_entity_ctxt_span f1) ds = Some l2"
    and l3: "map_of (fkb_facts f1) ds = Some l3"
    unfolding index_inv_def by (metis option.exhaust)
  have jb: "j < length l1" "j < length l2"
    using inv1 j l1 l2 unfolding index_inv_def by metis+
  define ec where "ec = AList.update ds (l1[j := l1 ! j @ [fid]]) (fkb_entity_ctxt f1)"
  define es where "es = AList.update ds (l2[j := l2 ! j @ [span]]) (fkb_entity_ctxt_span f1)"
  define fs where "fs = AList.update ds (l3 @ [fid]) (fkb_facts f1)"
  define f2 where "f2 = f1\<lparr>fkb_entity_ctxt := ec, fkb_entity_ctxt_span := es, fkb_facts := fs\<rparr>"
  have a1: "nested_append (fkb_entity_ctxt f1) ds j fid = Inr ec"
    using l1 jb by (simp add: nested_append_def ec_def)
  have a2: "nested_append (fkb_entity_ctxt_span (f1\<lparr>fkb_entity_ctxt := ec\<rparr>)) ds j span = Inr es"
    using l2 jb by (simp add: nested_append_def es_def)
  have a3: "dict_append (fkb_facts f1) ds fid = Inr fs"
    using l3 by (simp add: dict_append_def fs_def)
  have step: "index_entities ds fid (p # ps) f = index_entities ds fid ps f2"
    unfolding p using ne j a1 a2 a3 by (simp add: f2_def)
  have inv2: "index_inv f2"
    unfolding f2_def ec_def es_def fs_def
    using inv1 l1 l2 l3 by (intro index_inv_touch) simp_all
  have fs2: "map_of (fkb_facts f2) ds \<noteq> None" by (simp add: f2_def fs_def update_conv')
  from Cons.IH [OF inv2 fs2] step kb1 show ?case by (simp add: f2_def)
qed

lemma new_fact_partition_inv:
  assumes "index_inv f" and "map_of (fkb_facts f) ds = None"
  shows "index_inv (new_fact_partition ds f)"
proof -
  from assms have c: "map_of (fkb_entity_ctxt f) ds = None" and s: "map_of (fkb_entity_ctxt_span f) ds = None"
    by (simp_all add: index_inv_def)
  show ?thesis
    using assms c s
    by (auto simp: index_inv_def new_fact_partition_def update_conv' distinct_update)
qed

lemma add_fact_inv:
  assumes "index_inv f"
  shows "index_inv (snd (add_fact fa sp en ds f))"
proof -
  define ws where "ws = (case fa of Tokens l \<Rightarrow> l | Text t \<Rightarrow> str_split t)"
  define names where "names = (case en of None \<Rightarrow> span_names ws sp | Some es \<Rightarrow> es)"
  show ?thesis
  proof (cases "case en of None \<Rightarrow> True | Some es \<Rightarrow> length es = length sp")
    case False
    with assms show ?thesis by (simp add: add_fact_def)
  next
    case True
    obtain r k where a: "add ws sp (Some names) ds (fkb_kb f) = (r, k)"
      by (cases "add ws sp (Some names) ds (fkb_kb f)")
    have inv1: "index_inv (f\<lparr>fkb_kb := k\<rparr>)" using assms by (simp add: index_inv_def)
    show ?thesis
    proof (cases r)
      case (Inl e)
      with True a inv1 show ?thesis
        by (simp add: add_fact_def ws_def [symmetric] names_def [symmetric])
    next
      case (Inr fid)
      define f2 where "f2 = (if map_of (fkb_facts (f\<lparr>fkb_kb := k\<rparr>)) ds = None
          then new_fact_partition ds (f\<lparr>fkb_kb := k\<rparr>) else f\<lparr>fkb_kb := k\<rparr>)"
      have inv2: "index_inv f2" using inv1 by (simp add: f2_def new_fact_partition_inv)
      have fs2: "map_of (fkb_facts f2) ds \<noteq> None"
        by (auto simp: f2_def new_fact_partition_def update_conv')
      from index_entities_inv [OF inv2 fs2, of fid "zip names sp"] obtain f3 where
        ie: "index_entities ds fid (zip names sp) f2 = (None, f3)" and inv3: "index_inv f3" by blast
      have "add_fact fa sp en ds f = (Inr fid, f3)"
        unfolding add_fact_def ws_def [symmetric] Let_def names_def [symmetric]
        using True a Inr ie by (simp add: f2_def)
      with inv3 show ?thesis by simp
    qed
  qed
qed

lemma fact_reachable_inv: "fact_reachable f \<Longrightarrow> index_inv f"
proof (induction rule: fact_reachable.induct)
  case (fact_reachable_init k)
  show ?case by (simp add: index_inv_def factkb_init_def)
next
  case (fact_reachable_add f fa sp en ds)
  from fact_reachable_add.IH show ?case by (rule add_fact_inv)
qed

text \<open>
  C10.  In every index built by calls of \<open>add_fact\<close> on a fresh \<open>FactKB\<close>, in
  whatever order partitions and entities first appear, every partition of the
  entity-to-fact dictionary has as many mention lists as there are entities, and so has
  the dictionary of mention spans; reading either list at an entity id succeeds.
\<close>

theorem entity_index_aligned:
  assumes "fact_reachable f" and "map_of (fkb_entity_ctxt f) ds = Some fl"
  shows "length fl = length (fkb_entity_vocab f)
     \<and> (\<exists>sl. map_of (fkb_entity_ctxt_span f) ds = Some sl \<and> length sl = length (fkb_entity_vocab f)
          \<and> (\<forall>j < length (fkb_entity_vocab f).
                facts_about (Id (int j)) ds f = Inr (fl ! j)
                \<and> list_index sl (int j) = Inr (sl ! j)))"
proof -
  have inv: "index_inv f" using assms(1) by (rule fact_reachable_inv)
  from inv assms(2) have n: "length fl = length (fkb_entity_vocab f)"
    unfolding index_inv_def by blast
  from inv assms(2) obtain sl where sl: "map_of (fkb_entity_ctxt_span f) ds = Some sl"
    unfolding index_inv_def by (metis option.exhaust option.distinct(1))
  with inv have m: "length sl = length (fkb_entity_vocab f)"
    unfolding index_inv_def by blast
  have "facts_about (Id (int j)) ds f = Inr (fl ! j) \<and> list_index sl (int j) = Inr (sl ! j)"
    if "j < length (fkb_entity_vocab f)" for j
    using that assms(2) n m by (simp add: facts_about_def list_index_nat)
  with n sl m show ?thesis by blast
qed

theorem entity_index_aligned_witness:
  "fact_reachable paris_valid
   \<and> map_of (fkb_entity_ctxt paris_valid) ''valid'' = Some [[0], [], [0]]
   \<and> length [[0], [], [0::int]] = length (fkb_entity_vocab paris_valid)
   \<and> (\<exists>sl. map_of (fkb_entity_ctxt_span paris_valid) ''valid'' = Some sl
         \<and> length sl = length (fkb_entity_vocab paris_valid)
         \<and> facts_about (Id 1) ''valid'' paris_valid = Inr []
         \<and> list_index sl 1 = Inr (sl ! 1))"
proof -
  have r: "fact_reachable paris_valid"
    unfolding paris_valid_def paris_fact_def by (intro fact_reachable_add fact_reachable_init)
  have m: "map_of (fkb_entity_ctxt paris_valid) ''valid'' = Some [[0], [], [0]]"
    unfolding paris_valid_def paris_fact_def by code_simp
  have n: "(1::nat) < length (fkb_entity_vocab paris_valid)"
    unfolding paris_valid_def paris_fact_def by code_simp
  from entity_index_aligned [OF r m] n r m show ?thesis by fastforce
qed

text \<open>
  C3.  \<open>fact_entities\<close> reads the entity-indexed lists at the fact id.  After
  \<open>add_fact(["Paris","is","capital","of","France"], [(0,1),(3,4)])\<close> on a fresh
  index the fact id is 0 and the call returns the mentions of entity 0 alone: the span
  \<open>(3,4)\<close> of the fact is stored, under entity 1, and is not returned.  After adding a
  fact with one entity twice, the second fact has id 1 and \<open>fact_entities\<close> raises
  \<open>IndexError\<close>, since there is no entity 1.
\<close>

theorem fact_entities_by_entity_id:
  "fst (add_fact (Tokens [''Paris'', ''is'', ''capital'', ''of'', ''France''])
      [(0, 1), (3, 4)] None ''train'' (factkb_init None)) = Inr 0
   \<and> fact_entities 0 ''train'' paris_fact = Inr ([0], [(0, 1)])
   \<and> fkb_entity_ctxt_span paris_fact = [(''train'', [[(0, 1)], [(3, 4)]])]
   \<and> fst (add_fact (Tokens [''Paris'', ''is'', ''big'']) [(0, 1)] None ''train''
        (snd (add_fact (Tokens [''Paris'', ''is'', ''big'']) [(0, 1)] None ''train'' (factkb_init None)))) = Inr 1
   \<and> fact_entities 1 ''train'' paris_twice = Inl IndexError"
  unfolding paris_fact_def paris_twice_def by code_simp

end
